theory Spec2Isabelle
  imports Main "HOL-Library.Word" "HOL-Library.AList" "HOL-Library.Multiset"
begin

section \<open>Identifiers\<close>

text \<open>
  \<^verbatim>\<open>task.MessageID\<close>, \<^verbatim>\<open>process.IntentID\<close> and \<^verbatim>\<open>process.ID\<close> are fixed-size
  byte arrays. They are modelled as byte lists; the protocol tasks only use them as
  map keys.
\<close>

type_synonym byte = "8 word"
type_synonym MessageID = "byte list"

section \<open>Prime field and Shamir shares\<close>

text \<open>
  Modelled from the spec: the packages \<^verbatim>\<open>algebra\<close> and \<^verbatim>\<open>shamir\<close> are not among
  the sources (only their tests and callers are). In the source every field element
  carries its field; here the prime \<open>q\<close> is an explicit parameter of each operation.
  A share is a pair of an index (\<^verbatim>\<open>uint64\<close>, only stored and compared, never used in
  machine arithmetic) and a value in \<open>[0, q)\<close>.
\<close>

record share =
  share_index :: nat
  share_value :: int

definition share_new :: "nat \<Rightarrow> int \<Rightarrow> share" where
  "share_new i v = \<lparr>share_index = i, share_value = v\<rparr>"

text \<open>
  Modelled from the spec (4.2): addition of two shares adds the y-coordinates,
  multiplication multiplies them; the index is preserved.
\<close>

definition share_add :: "int \<Rightarrow> share \<Rightarrow> share \<Rightarrow> share" where
  "share_add q a b = share_new (share_index a) ((share_value a + share_value b) mod q)"

definition share_sub :: "int \<Rightarrow> share \<Rightarrow> share \<Rightarrow> share" where
  "share_sub q a b = share_new (share_index a) ((share_value a - share_value b) mod q)"

definition share_mul :: "int \<Rightarrow> share \<Rightarrow> share \<Rightarrow> share" where
  "share_mul q a b = share_new (share_index a) ((share_value a * share_value b) mod q)"

text \<open>
  Modelled from the spec (4.1): inversion uses the extended Euclidean algorithm.
  \<open>egcd a b\<close> returns \<open>(g, u, v)\<close> with \<open>u * a + v * b = g\<close>.
\<close>

function egcd :: "nat \<Rightarrow> nat \<Rightarrow> nat \<times> int \<times> int" where
  "egcd a b =
     (if b = 0 then (a, 1, 0)
      else (case egcd b (a mod b) of (g, u, v) \<Rightarrow> (g, v, u - int (a div b) * v)))"
  by pat_completeness auto
termination
  by (relation "measure snd") auto

declare egcd.simps [simp del]

definition fp_inv :: "int \<Rightarrow> int \<Rightarrow> int" where
  "fp_inv q a = (case egcd (nat (a mod q)) (nat q) of (g, u, v) \<Rightarrow> u mod q)"

text \<open>
  Modelled from the spec (4.2): \<open>Join\<close> reconstructs \<open>f(0)\<close> by Lagrange interpolation,
  \<open>f(0) = \<Sum>\<^sub>i y\<^sub>i \<Prod>\<^sub>j\<^sub>\<noteq>\<^sub>i x\<^sub>j / (x\<^sub>j - x\<^sub>i)\<close>, and fails on duplicate indices or on
  fewer than one share. Indices that are distinct as integers but equal in the field
  would need a division by zero, which fails as well (4.1).
\<close>

datatype join_error = ErrNoShares | ErrDuplicateIndex | ErrDivisionByZero

definition lagrange_coeff :: "int \<Rightarrow> int list \<Rightarrow> int \<Rightarrow> int" where
  "lagrange_coeff q xs xi =
     prod_list (map (\<lambda>xj. xj * fp_inv q (xj - xi) mod q) (filter (\<lambda>xj. xj \<noteq> xi) xs)) mod q"

definition lagrange0 :: "int \<Rightarrow> (int \<times> int) list \<Rightarrow> int" where
  "lagrange0 q pts =
     sum_list (map (\<lambda>(xi, yi). yi * lagrange_coeff q (map fst pts) xi mod q) pts) mod q"

definition share_point :: "int \<Rightarrow> share \<Rightarrow> int \<times> int" where
  "share_point q s = (int (share_index s) mod q, share_value s)"

definition Join :: "int \<Rightarrow> share list \<Rightarrow> join_error + int" where
  "Join q shares =
     (if shares = [] then Inl ErrNoShares
      else if \<not> distinct (map share_index shares) then Inl ErrDuplicateIndex
      else if \<not> distinct (map (\<lambda>s. int (share_index s) mod q) shares) then Inl ErrDivisionByZero
      else Inr (lagrange0 q (map (share_point q) shares)))"

section \<open>The multiplication task (core/vm/mul/mul.go)\<close>

record Mul =
  Mul_id :: MessageID
  Mul_xs :: "share list"
  Mul_ys :: "share list"
  Mul_rhos :: "share list"
  Mul_sigmas :: "share list"

record OpenMul =
  OpenMul_id :: MessageID
  From :: nat
  Shares :: "share list"

record Result =
  Result_id :: MessageID
  Result_Shares :: "share list"

definition NewOpenMul :: "MessageID \<Rightarrow> nat \<Rightarrow> share list \<Rightarrow> OpenMul" where
  "NewOpenMul i from shares = \<lparr>OpenMul_id = i, From = from, Shares = shares\<rparr>"

definition NewResult :: "MessageID \<Rightarrow> share list \<Rightarrow> Result" where
  "NewResult i shares = \<lparr>Result_id = i, Result_Shares = shares\<rparr>"

text \<open>
  What \<^verbatim>\<open>Reduce\<close> returns: \<^verbatim>\<open>nil\<close>, a \<^verbatim>\<open>Result\<close>, an \<^verbatim>\<open>OpenMul\<close> or a
  \<^verbatim>\<open>task.MessageBatch\<close> of these.
\<close>

datatype message =
    NilMessage
  | MulMessage Mul
  | OpenMulMessage OpenMul
  | ResultMessage Result
  | MessageBatch "message list"
  | OtherMessage

text \<open>
  The multiplier's state. The inner map of \<^verbatim>\<open>opens\<close> (sender index to the last
  \<^verbatim>\<open>OpenMul\<close> of that sender) is ranged over by the source, so it is an association
  list with distinct keys, updated in place by \<open>AList.update\<close>; its length is the
  \<^verbatim>\<open>len\<close> of the Go map. The fields \<^verbatim>\<open>index\<close>, \<^verbatim>\<open>n\<close>, \<^verbatim>\<open>k\<close> are \<^verbatim>\<open>uint64\<close> values
  that are only compared.
\<close>

record multiplier =
  m_index :: nat
  m_n :: nat
  m_k :: nat
  muls :: "MessageID \<rightharpoonup> Mul"
  opens :: "MessageID \<rightharpoonup> (nat \<times> OpenMul) list"
  results :: "MessageID \<rightharpoonup> Result"

definition newMultiplier :: "nat \<Rightarrow> nat \<Rightarrow> nat \<Rightarrow> multiplier" where
  "newMultiplier i n k =
     \<lparr>m_index = i, m_n = n, m_k = k, muls = Map.empty, opens = Map.empty, results = Map.empty\<rparr>"

text \<open>Every panic of the source is a value.\<close>

datatype panic =
    UnexpectedMessageType
  | IndexOutOfRange
  | JoinFailed join_error

text \<open>
  \<^verbatim>\<open>co.ForAll(batch, f)\<close> runs \<open>f\<close> on \<open>0, \<dots>, batch - 1\<close>; a panic in any of the calls
  is a panic of the whole.
\<close>

fun collect :: "(panic + 'a) list \<Rightarrow> panic + 'a list" where
  "collect [] = Inr []"
| "collect (r # rs) =
     (case r of
        Inl e \<Rightarrow> Inl e
      | Inr v \<Rightarrow> (case collect rs of Inl e \<Rightarrow> Inl e | Inr vs \<Rightarrow> Inr (v # vs)))"

definition ForAll :: "nat \<Rightarrow> (nat \<Rightarrow> panic + 'a) \<Rightarrow> panic + 'a list" where
  "ForAll batch f = collect (map f [0..<batch])"

text \<open>The openings stored for an id (empty when the id has no inner map).\<close>

definition openings :: "multiplier \<Rightarrow> MessageID \<Rightarrow> (nat \<times> OpenMul) list" where
  "openings m i = (case opens m i of None \<Rightarrow> [] | Some os \<Rightarrow> os)"

text \<open>Lines 75 to 78 of \<^verbatim>\<open>tryOpenMul\<close>: the message is stored under its sender.\<close>

definition storeOpenMul :: "multiplier \<Rightarrow> OpenMul \<Rightarrow> multiplier" where
  "storeOpenMul m msg =
     m\<lparr>opens := (opens m)(OpenMul_id msg \<mapsto>
          AList.update (From msg) msg (openings m (OpenMul_id msg)))\<rparr>"

text \<open>
  The inner loop of \<^verbatim>\<open>tryOpenMul\<close>: \<^verbatim>\<open>sharesCache\<close> has \<open>n\<close> slots and is filled with
  share \<open>b\<close> of every stored opening; writing slot \<open>n\<close> or reading a share that an
  opening does not have is an index out of range.
\<close>

fun fillSharesCache :: "nat \<Rightarrow> nat \<Rightarrow> OpenMul list \<Rightarrow> share list \<Rightarrow> panic + share list" where
  "fillSharesCache n b [] cache = Inr cache"
| "fillSharesCache n b (opening # rest) cache =
     (if n \<le> length cache then Inl IndexOutOfRange
      else if length (Shares opening) \<le> b then Inl IndexOutOfRange
      else fillSharesCache n b rest (cache @ [Shares opening ! b]))"

definition openShare :: "int \<Rightarrow> multiplier \<Rightarrow> MessageID \<Rightarrow> nat \<Rightarrow> panic + share" where
  "openShare q m i b =
     (case fillSharesCache (m_n m) b (map snd (openings m i)) [] of
        Inl e \<Rightarrow> Inl e
      | Inr cache \<Rightarrow>
          (case Join q cache of
             Inl err \<Rightarrow> Inl (JoinFailed err)
           | Inr v \<Rightarrow>
               (case muls m i of
                  None \<Rightarrow> Inl IndexOutOfRange
                | Some sig \<Rightarrow>
                    if length (Mul_sigmas sig) \<le> b then Inl IndexOutOfRange
                    else (let \<sigma> = Mul_sigmas sig ! b
                          in Inr (share_sub q (share_new (share_index \<sigma>) v) \<sigma>)))))"

definition tryOpenMul :: "int \<Rightarrow> multiplier \<Rightarrow> OpenMul \<Rightarrow> panic + message \<times> multiplier" where
  "tryOpenMul q m0 msg =
     (let m = storeOpenMul m0 msg; i = OpenMul_id msg in
      if length (openings m i) < m_k m then Inr (NilMessage, m)
      else if muls m i = None then Inr (NilMessage, m)
      else if results m i \<noteq> None then Inr (NilMessage, m)
      else (case ForAll (length (Shares msg)) (openShare q m i) of
              Inl e \<Rightarrow> Inl e
            | Inr shares \<Rightarrow>
                (let result = NewResult i shares
                 in Inr (ResultMessage result,
                         m\<lparr>results := (results m)(i \<mapsto> result),
                           muls := (muls m)(i := None),
                           opens := (opens m)(i := None)\<rparr>))))"

definition mulShare :: "int \<Rightarrow> Mul \<Rightarrow> nat \<Rightarrow> panic + share" where
  "mulShare q msg b =
     (if length (Mul_ys msg) \<le> b \<or> length (Mul_rhos msg) \<le> b then Inl IndexOutOfRange
      else Inr (share_add q (share_mul q (Mul_xs msg ! b) (Mul_ys msg ! b)) (Mul_rhos msg ! b)))"

definition mul :: "int \<Rightarrow> multiplier \<Rightarrow> Mul \<Rightarrow> panic + message \<times> multiplier" where
  "mul q m0 msg =
     (case results m0 (Mul_id msg) of
        Some result \<Rightarrow> Inr (ResultMessage result, m0)
      | None \<Rightarrow>
          (let m = m0\<lparr>muls := (muls m0)(Mul_id msg \<mapsto> msg)\<rparr> in
           case ForAll (length (Mul_xs msg)) (mulShare q msg) of
             Inl e \<Rightarrow> Inl e
           | Inr shares \<Rightarrow>
               (let om = NewOpenMul (Mul_id msg) (m_index m) shares in
                case tryOpenMul q m om of
                  Inl e \<Rightarrow> Inl e
                | Inr (out, m') \<Rightarrow> Inr (MessageBatch [out, OpenMulMessage om], m'))))"

definition Reduce :: "int \<Rightarrow> multiplier \<Rightarrow> message \<Rightarrow> panic + message \<times> multiplier" where
  "Reduce q m message =
     (case message of
        MulMessage msg \<Rightarrow> mul q m msg
      | OpenMulMessage msg \<Rightarrow> tryOpenMul q m msg
      | _ \<Rightarrow> Inl UnexpectedMessageType)"

text \<open>
  The task runtime hands the reducer one message at a time; \<open>run\<close> delivers a list of
  messages in order and collects what \<^verbatim>\<open>Reduce\<close> returns for each.
\<close>

fun run :: "int \<Rightarrow> multiplier \<Rightarrow> message list \<Rightarrow> panic + message list \<times> multiplier" where
  "run q m [] = Inr ([], m)"
| "run q m (x # xs) =
     (case Reduce q m x of
        Inl e \<Rightarrow> Inl e
      | Inr (out, m') \<Rightarrow>
          (case run q m' xs of Inl e \<Rightarrow> Inl e | Inr (outs, m'') \<Rightarrow> Inr (out # outs, m'')))"

text \<open>A \<^verbatim>\<open>Mul\<close> or \<^verbatim>\<open>OpenMul\<close> message that carries the id \<open>i\<close>.\<close>

definition for_id :: "MessageID \<Rightarrow> message \<Rightarrow> bool" where
  "for_id i x =
     (case x of
        MulMessage msg \<Rightarrow> Mul_id msg = i
      | OpenMulMessage om \<Rightarrow> OpenMul_id om = i
      | _ \<Rightarrow> False)"

text \<open>What a multiplier that holds the result \<open>r\<close> for an id answers to a message for that id.\<close>

definition cached_reply :: "Result \<Rightarrow> message \<Rightarrow> message" where
  "cached_reply r x = (case x of MulMessage msg \<Rightarrow> ResultMessage r | _ \<Rightarrow> NilMessage)"

subsection \<open>Example inputs\<close>

definition ex_result :: Result where
  "ex_result = NewResult [1] [share_new 1 5]"

definition ex_cached :: multiplier where
  "ex_cached = (newMultiplier 1 3 2)\<lparr>results := Map.empty([1] \<mapsto> ex_result)\<rparr>"

definition ex_mul :: Mul where
  "ex_mul = \<lparr>Mul_id = [1], Mul_xs = [share_new 1 2], Mul_ys = [share_new 1 3],
             Mul_rhos = [share_new 1 4], Mul_sigmas = [share_new 1 4]\<rparr>"

text \<open>The \<^verbatim>\<open>Result\<close> messages that an output of \<^verbatim>\<open>Reduce\<close> carries, also inside a batch.\<close>

fun results_in :: "message \<Rightarrow> Result list" where
  "results_in (ResultMessage r) = [r]"
| "results_in (MessageBatch ms) = concat (map results_in ms)"
| "results_in _ = []"

text \<open>How many results for the id \<open>i\<close> a list of outputs carries.\<close>

definition result_count :: "MessageID \<Rightarrow> message list \<Rightarrow> nat" where
  "result_count i outs = length (filter (\<lambda>r. Result_id r = i) (concat (map results_in outs)))"

text \<open>The message is the \<^verbatim>\<open>Mul\<close> signal for \<open>i\<close>.\<close>

definition is_mul_for :: "MessageID \<Rightarrow> message \<Rightarrow> bool" where
  "is_mul_for i x = (case x of MulMessage msg \<Rightarrow> Mul_id msg = i | _ \<Rightarrow> False)"

definition signalled :: "MessageID \<Rightarrow> message list \<Rightarrow> bool" where
  "signalled i msgs = (\<exists>x\<in>set msgs. is_mul_for i x)"

text \<open>
  The sender under which a delivered message puts an opening for \<open>i\<close> into the
  multiplier: an \<^verbatim>\<open>OpenMul\<close> under its \<^verbatim>\<open>From\<close>, a \<^verbatim>\<open>Mul\<close> under the multiplier's own
  index (line 66 and 69 of the source: the own opening goes through \<^verbatim>\<open>tryOpenMul\<close>).
\<close>

fun sender_of :: "MessageID \<Rightarrow> nat \<Rightarrow> message \<Rightarrow> nat list" where
  "sender_of i idx (OpenMulMessage om) = (if OpenMul_id om = i then [From om] else [])"
| "sender_of i idx (MulMessage msg) = (if Mul_id msg = i then [idx] else [])"
| "sender_of i idx _ = []"

definition senders :: "MessageID \<Rightarrow> nat \<Rightarrow> message list \<Rightarrow> nat set" where
  "senders i idx msgs = set (concat (map (sender_of i idx) msgs))"

text \<open>The shares that \<^verbatim>\<open>tryOpenMul\<close> hands to \<^verbatim>\<open>shamir.Join\<close> for batch position \<open>b\<close>.\<close>

definition joined :: "multiplier \<Rightarrow> OpenMul \<Rightarrow> nat \<Rightarrow> share list" where
  "joined m msg b =
     map (\<lambda>opening. Shares opening ! b) (map snd (openings (storeOpenMul m msg) (OpenMul_id msg)))"

text \<open>
  Both conditions for the id \<open>i\<close> hold after the messages \<open>msgs\<close>: the signal was
  delivered, and openings of at least \<open>k\<close> distinct senders were stored.
\<close>

definition complete :: "MessageID \<Rightarrow> nat \<Rightarrow> nat \<Rightarrow> message list \<Rightarrow> bool" where
  "complete i idx k msgs \<longleftrightarrow> signalled i msgs \<and> k \<le> card (senders i idx msgs)"

text \<open>The results a run has emitted (none when it panicked).\<close>

definition emitted :: "panic + message list \<times> multiplier \<Rightarrow> Result list" where
  "emitted x = (case x of Inl e \<Rightarrow> [] | Inr (outs, m) \<Rightarrow> concat (map results_in outs))"

text \<open>Further example inputs: one signal and two openings for the id \<open>[1]\<close>, in two orders.\<close>

definition ex_open2 :: OpenMul where "ex_open2 = NewOpenMul [1] 2 [share_new 2 2]"

definition ex_open3 :: OpenMul where "ex_open3 = NewOpenMul [1] 3 [share_new 3 0]"

definition ex_signal :: Mul where
  "ex_signal = \<lparr>Mul_id = [1], Mul_xs = [share_new 1 2], Mul_ys = [share_new 1 3],
             Mul_rhos = [share_new 1 2], Mul_sigmas = [share_new 1 4]\<rparr>"

definition ex_early :: "message list" where
  "ex_early = [MulMessage ex_signal, OpenMulMessage ex_open2, OpenMulMessage ex_open3]"

definition ex_late :: "message list" where
  "ex_late = [OpenMulMessage ex_open2, OpenMulMessage ex_open3, MulMessage ex_signal]"

text \<open>
  The share \<open>s\<close> is the one line 104 to 110 compute for batch position \<open>b\<close>: the joined
  value at the index of \<open>\<sigma>\<close>, minus \<open>\<sigma>\<close>.
\<close>

definition interpolated :: "int \<Rightarrow> multiplier \<Rightarrow> OpenMul \<Rightarrow> nat \<Rightarrow> share \<Rightarrow> bool" where
  "interpolated q m msg b s \<longleftrightarrow>
     (case (Join q (joined m msg b), muls m (OpenMul_id msg)) of
        (Inr v, Some sig) \<Rightarrow>
          b < length (Mul_sigmas sig) \<and>
          s = share_sub q (share_new (share_index (Mul_sigmas sig ! b)) v) (Mul_sigmas sig ! b)
      | _ \<Rightarrow> False)"

text \<open>States that wait for openings, and an opening forged under the sender index 2.\<close>

definition ex_pending :: multiplier where
  "ex_pending = (newMultiplier 1 3 2)
     \<lparr>muls := Map.empty([1] \<mapsto> ex_signal), opens := Map.empty([1] \<mapsto> [(1, NewOpenMul [1] 1 [share_new 1 1])])\<rparr>"

definition ex_waiting :: multiplier where
  "ex_waiting = (newMultiplier 1 3 3)
     \<lparr>muls := Map.empty([1] \<mapsto> ex_signal),
      opens := Map.empty([1] \<mapsto> [(1, NewOpenMul [1] 1 [share_new 1 1]), (2, ex_open2)])\<rparr>"

definition ex_forged :: OpenMul where
  "ex_forged = NewOpenMul [1] 2 [share_new 3 5]"


subsection \<open>The result of a multiplication, read off the delivered messages\<close>

text \<open>
  The definitions of this subsection do not look at the multiplier. They say, in terms of
  the list of messages that were delivered, which openings count, what the signal is and
  which \<^verbatim>\<open>Result\<close> belongs to them; the theorems compare \<open>run\<close> with them.
\<close>

text \<open>The \<^verbatim>\<open>Result\<close> messages for the id \<open>i\<close> among a list of outputs, in order.\<close>

definition results_of :: "MessageID \<Rightarrow> message list \<Rightarrow> Result list" where
  "results_of i outs = filter (\<lambda>r. Result_id r = i) (concat (map results_in outs))"

text \<open>
  The opening a multiplier with index \<open>idx\<close> makes for itself from a signal: at batch
  position \<open>b\<close> the share \<open>x\<^sub>b * y\<^sub>b + \<rho>\<^sub>b\<close>. The signal is well formed when \<^verbatim>\<open>ys\<close> and
  \<^verbatim>\<open>\<rho>s\<close> have a share for every position of \<^verbatim>\<open>xs\<close>.
\<close>

definition own_opening :: "int \<Rightarrow> nat \<Rightarrow> Mul \<Rightarrow> OpenMul" where
  "own_opening q idx s =
     NewOpenMul (Mul_id s) idx
       (map (\<lambda>b. share_add q (share_mul q (Mul_xs s ! b) (Mul_ys s ! b)) (Mul_rhos s ! b))
          [0..<length (Mul_xs s)])"

definition well_formed :: "Mul \<Rightarrow> bool" where
  "well_formed s \<longleftrightarrow>
     length (Mul_xs s) \<le> length (Mul_ys s) \<and> length (Mul_xs s) \<le> length (Mul_rhos s)"

text \<open>
  The opening for \<open>i\<close> that a delivered message brings: an \<^verbatim>\<open>OpenMul\<close> for \<open>i\<close> itself, a
  \<^verbatim>\<open>Mul\<close> for \<open>i\<close> the multiplier's own opening. \<open>delivered\<close> lists them in the order of
  delivery, \<open>last_openings\<close> keeps of every sender the last one, and \<open>stored\<close> is what
  a quorum is counted on and interpolated from.
\<close>

fun opening_of :: "int \<Rightarrow> MessageID \<Rightarrow> nat \<Rightarrow> message \<Rightarrow> OpenMul list" where
  "opening_of q i idx (OpenMulMessage om) = (if OpenMul_id om = i then [om] else [])"
| "opening_of q i idx (MulMessage s) = (if Mul_id s = i then [own_opening q idx s] else [])"
| "opening_of q i idx _ = []"

definition delivered :: "int \<Rightarrow> MessageID \<Rightarrow> nat \<Rightarrow> message list \<Rightarrow> OpenMul list" where
  "delivered q i idx msgs = concat (map (opening_of q i idx) msgs)"

fun last_openings :: "OpenMul list \<Rightarrow> OpenMul list" where
  "last_openings [] = []"
| "last_openings (om # oms) =
     (if From om \<in> From ` set oms then last_openings oms else om # last_openings oms)"

definition stored :: "int \<Rightarrow> MessageID \<Rightarrow> nat \<Rightarrow> message list \<Rightarrow> OpenMul list" where
  "stored q i idx msgs = last_openings (delivered q i idx msgs)"

text \<open>The signal for \<open>i\<close>: the last \<^verbatim>\<open>Mul\<close> for \<open>i\<close> that was delivered.\<close>

fun signal_of :: "MessageID \<Rightarrow> message \<Rightarrow> Mul list" where
  "signal_of i (MulMessage s) = (if Mul_id s = i then [s] else [])"
| "signal_of i _ = []"

definition last_signal :: "MessageID \<Rightarrow> message list \<Rightarrow> Mul option" where
  "last_signal i msgs =
     (case rev (concat (map (signal_of i) msgs)) of [] \<Rightarrow> None | s # ss \<Rightarrow> Some s)"

text \<open>
  The share of the \<^verbatim>\<open>Result\<close> at batch position \<open>b\<close>, from the signal \<open>sig\<close> and the
  openings \<open>st\<close> of a multiplier for \<open>n\<close> participants: the value joined from the shares
  at position \<open>b\<close> of all the openings, as a share at the index of \<open>\<sigma>\<^sub>b\<close>, minus \<open>\<sigma>\<^sub>b\<close>.
  There is none when there are more than \<open>n\<close> openings, when an opening or \<^verbatim>\<open>\<sigma>s\<close> has
  no position \<open>b\<close>, or when the shares do not join.
\<close>

definition spec_share :: "int \<Rightarrow> nat \<Rightarrow> Mul \<Rightarrow> OpenMul list \<Rightarrow> nat \<Rightarrow> share option" where
  "spec_share q n sig st b =
     (if n < length st \<or> (\<exists>opening\<in>set st. length (Shares opening) \<le> b) \<or>
         length (Mul_sigmas sig) \<le> b
      then None
      else (case Join q (map (\<lambda>opening. Shares opening ! b) st) of
              Inl err \<Rightarrow> None
            | Inr v \<Rightarrow>
                Some (share_sub q (share_new (share_index (Mul_sigmas sig ! b)) v)
                        (Mul_sigmas sig ! b))))"

text \<open>
  The \<^verbatim>\<open>Result\<close> for \<open>i\<close> that belongs to the messages \<open>msgs\<close>, the last of which brought
  an opening for \<open>i\<close>: one share for every batch position of that last opening, from the
  signal and the stored openings; none when the signal is not well formed or a share is
  missing.
\<close>

definition spec_result :: "int \<Rightarrow> nat \<Rightarrow> nat \<Rightarrow> MessageID \<Rightarrow> message list \<Rightarrow> Result option" where
  "spec_result q n idx i msgs =
     (case (last_signal i msgs, rev (delivered q i idx msgs)) of
        (Some sig, trigger # earlier) \<Rightarrow>
          if well_formed sig
          then map_option (NewResult i)
                 (those (map (spec_share q n sig (stored q i idx msgs))
                           [0..<length (Shares trigger)]))
          else None
      | _ \<Rightarrow> None)"

text \<open>The last message of \<open>msgs\<close> is the one that completes the two conditions for \<open>i\<close>.\<close>

definition completes :: "MessageID \<Rightarrow> nat \<Rightarrow> nat \<Rightarrow> message list \<Rightarrow> bool" where
  "completes i idx k msgs \<longleftrightarrow>
     msgs \<noteq> [] \<and> \<not> complete i idx k (butlast msgs) \<and> complete i idx k msgs"

subsection \<open>The invariant of a run\<close>

text \<open>
  What the state \<open>m\<close> of a multiplier and its outputs \<open>outs\<close> have to do with the messages
  \<open>msgs\<close> it was given, for the id \<open>i\<close>. While it holds no result for \<open>i\<close> the conditions
  are not complete, nothing was emitted for \<open>i\<close>, and it holds the last signal and, under
  every sender, the last opening. Once it holds a result, that is the \<^verbatim>\<open>Result\<close> of the
  messages up to the one that completed the conditions, emitted then and once more for
  every \<^verbatim>\<open>Mul\<close> for \<open>i\<close> since.
\<close>

definition trace_inv ::
  "int \<Rightarrow> nat \<Rightarrow> nat \<Rightarrow> nat \<Rightarrow> MessageID \<Rightarrow> message list \<Rightarrow> message list \<Rightarrow> multiplier \<Rightarrow> bool" where
  "trace_inv q n idx k i msgs outs m \<longleftrightarrow>
     m_index m = idx \<and> m_n m = n \<and> m_k m = k \<and>
     (\<forall>j r. results m j = Some r \<longrightarrow> Result_id r = j) \<and>
     (case results m i of
        None \<Rightarrow>
          \<not> complete i idx k msgs \<and> results_of i outs = [] \<and>
          muls m i = last_signal i msgs \<and>
          (\<forall>s. muls m i = Some s \<longrightarrow> well_formed s) \<and>
          distinct (map fst (openings m i)) \<and>
          mset (openings m i) = mset (map (\<lambda>x. (From x, x)) (stored q i idx msgs))
      | Some r \<Rightarrow>
          (\<exists>j<length msgs.
             \<not> complete i idx k (take j msgs) \<and> complete i idx k (take (Suc j) msgs) \<and>
             spec_result q n idx i (take (Suc j) msgs) = Some r \<and>
             results_of i outs
               = replicate (Suc (length (filter (is_mul_for i) (drop (Suc j) msgs)))) r))"

subsection \<open>Further example inputs\<close>

text \<open>
  Further example inputs for the id \<open>[1]\<close>: the signal before and after one opening, a
  repeated signal, an opening without shares, and an opening of sender 2 that carries a
  share with the index of the multiplier's own share.
\<close>

definition ex_first :: "message list" where
  "ex_first = [MulMessage ex_signal, OpenMulMessage ex_open2]"

definition ex_last :: "message list" where
  "ex_last = [OpenMulMessage ex_open2, MulMessage ex_signal]"

definition ex_repeat :: "message list" where
  "ex_repeat = [MulMessage ex_signal, OpenMulMessage ex_open2, MulMessage ex_signal]"

definition ex_short :: OpenMul where "ex_short = NewOpenMul [1] 3 []"

definition ex_ragged :: "message list" where
  "ex_ragged = [OpenMulMessage ex_short, MulMessage ex_signal]"

definition ex_clash :: OpenMul where "ex_clash = NewOpenMul [1] 2 [share_new 1 4]"

definition ex_clashing :: "message list" where
  "ex_clashing = [MulMessage ex_signal, OpenMulMessage ex_clash]"
section \<open>The program interpreter (package program)\<close>

subsection \<open>Values and the stack\<close>

text \<open>
  Modelled from the spec (3, 4.9): the \<^verbatim>\<open>Value\<close> types and the \<^verbatim>\<open>Stack\<close> are not among
  the sources. A value is public (an integer), private (a share) or a private random
  pair \<open>(\<rho>, \<sigma>)\<close>. The stack is a LIFO with the top at the head; \<^verbatim>\<open>Pop\<close> fails on the
  empty stack and \<^verbatim>\<open>Push\<close> fails on a full one (the source checks the error of both;
  the capacity is the field \<open>stack_limit\<close>).
\<close>

datatype Value =
    ValuePublic int
  | ValuePrivate share
  | ValuePrivateRn share share

datatype stack_error = StackOverflow | StackUnderflow

record Stack =
  stack_values :: "Value list"
  stack_limit :: nat

definition Push :: "Stack \<Rightarrow> Value \<Rightarrow> stack_error + Stack" where
  "Push s v =
     (if stack_limit s \<le> length (stack_values s) then Inl StackOverflow
      else Inr (s\<lparr>stack_values := v # stack_values s\<rparr>))"

definition Pop :: "Stack \<Rightarrow> stack_error + Value \<times> Stack" where
  "Pop s =
     (case stack_values s of
        [] \<Rightarrow> Inl StackUnderflow
      | v # vs \<Rightarrow> Inr (v, s\<lparr>stack_values := vs\<rparr>))"

subsection \<open>Result sinks\<close>

text \<open>
  A result sink is a Go channel of capacity 1 that the instruction and the intent share.
  Channels live in an explicit store: a channel is an address, its single slot is empty
  (\<open>None\<close>) or holds a value, and \<^verbatim>\<open>make\<close> takes the next unused address. The two
  element types of the source (\<^verbatim>\<open>shamir.Share\<close> and \<^verbatim>\<open>*big.Int\<close>) have a store each.
\<close>

type_synonym chan = nat

record Channels =
  share_slot :: "chan \<Rightarrow> share option"
  int_slot :: "chan \<Rightarrow> int option"
  next_chan :: chan

definition make_chan :: "Channels \<Rightarrow> chan \<times> Channels" where
  "make_chan h =
     (next_chan h,
      h\<lparr>share_slot := (share_slot h)(next_chan h := None),
        int_slot := (int_slot h)(next_chan h := None),
        next_chan := Suc (next_chan h)\<rparr>)"

text \<open>The receive of a \<^verbatim>\<open>select\<close> with a \<^verbatim>\<open>default\<close> branch: it never blocks.\<close>

definition recv_share :: "Channels \<Rightarrow> chan \<Rightarrow> (share \<times> Channels) option" where
  "recv_share h c =
     (case share_slot h c of
        None \<Rightarrow> None
      | Some v \<Rightarrow> Some (v, h\<lparr>share_slot := (share_slot h)(c := None)\<rparr>))"

definition recv_int :: "Channels \<Rightarrow> chan \<Rightarrow> (int \<times> Channels) option" where
  "recv_int h c =
     (case int_slot h c of
        None \<Rightarrow> None
      | Some v \<Rightarrow> Some (v, h\<lparr>int_slot := (int_slot h)(c := None)\<rparr>))"

subsection \<open>Instructions, intents and programs\<close>

text \<open>
  The instruction types are not among the sources; their fields are the ones that
  \<^verbatim>\<open>Exec\<close> reads and writes. A \<^verbatim>\<open>nil\<close> channel is \<open>None\<close>.
\<close>

record InstRand =
  RhoCh :: "chan option"
  SigmaCh :: "chan option"
  RhoReady :: bool
  Rho :: share
  SigmaReady :: bool
  Sigma :: share

record InstMul =
  MulRetCh :: "chan option"
  MulRetReady :: bool
  MulRet :: share

record InstOpen =
  OpenRetCh :: "chan option"
  OpenRetReady :: bool
  OpenRet :: int

datatype Inst =
    InstPush Value
  | InstAdd
  | InstRand InstRand
  | InstMul InstMul
  | InstOpen InstOpen
  | InstOther

datatype exec_error =
    StackError stack_error
  | UnexpectedInst
  | CodeOverflow
  | UnexpectedValue Value Value

datatype Intent =
    IntentToGenRn chan chan
  | IntentToMultiply share share share share chan
  | IntentToOpen share chan
  | IntentToError exec_error nat

definition GenRn :: "chan \<Rightarrow> chan \<Rightarrow> Intent" where
  "GenRn \<rho> \<sigma> = IntentToGenRn \<rho> \<sigma>"

definition Multiply :: "share \<Rightarrow> share \<Rightarrow> share \<Rightarrow> share \<Rightarrow> chan \<Rightarrow> Intent" where
  "Multiply x y \<rho> \<sigma> ret = IntentToMultiply x y \<rho> \<sigma> ret"

definition Open :: "share \<Rightarrow> chan \<Rightarrow> Intent" where
  "Open v ret = IntentToOpen v ret"

definition ErrorExecution :: "exec_error \<Rightarrow> nat \<Rightarrow> Intent" where
  "ErrorExecution err pc = IntentToError err pc"

definition ErrorUnexpectedInst :: "Inst \<Rightarrow> nat \<Rightarrow> Intent" where
  "ErrorUnexpectedInst inst pc = ErrorExecution UnexpectedInst pc"

definition ErrorCodeOverflow :: "nat \<Rightarrow> Intent" where
  "ErrorCodeOverflow pc = ErrorExecution CodeOverflow pc"

definition ErrorUnexpectedValue :: "Value \<Rightarrow> Value \<Rightarrow> nat \<Rightarrow> Intent" where
  "ErrorUnexpectedValue got expected pc = ErrorExecution (UnexpectedValue got expected) pc"

record Return =
  intent :: "Intent option"
  ready :: bool

definition Ready :: Return where
  "Ready = \<lparr>intent = None, ready = True\<rparr>"

definition NotReady :: "Intent option \<Rightarrow> Return" where
  "NotReady i = \<lparr>intent = i, ready = False\<rparr>"

text \<open>
  The program counter is a count of instructions below the code length whenever it is
  incremented, so it never wraps.
\<close>

record Program =
  ID :: "byte list"
  Stack :: Stack
  Memory :: "nat \<rightharpoonup> Value"
  Code :: "Inst list"
  PC :: nat

definition New :: "byte list \<Rightarrow> Stack \<Rightarrow> (nat \<rightharpoonup> Value) \<Rightarrow> Inst list \<Rightarrow> Program" where
  "New i stack mem code = \<lparr>ID = i, Stack = stack, Memory = mem, Code = code, PC = 0\<rparr>"

text \<open>The zero value of \<^verbatim>\<open>shamir.Share\<close>, as in \<^verbatim>\<open>ValuePrivate{}\<close>.\<close>

definition zero_share :: share where
  "zero_share = share_new 0 0"

subsection \<open>Exec\<close>

text \<open>
  \<^verbatim>\<open>Exec\<close> mutates the program and the channels and returns a \<^verbatim>\<open>Return\<close>; the model
  returns all three. The only panic is the \<^verbatim>\<open>default\<close> branch of \<^verbatim>\<open>execInstAdd\<close> (and
  whatever \<^verbatim>\<open>Value.Add\<close> does: that method is not among the sources and is the
  parameter \<open>add\<close>).
\<close>

datatype exec_panic = Unimplemented | AddPanic

type_synonym outcome = "exec_panic + Return \<times> Program \<times> Channels"

text \<open>\<^verbatim>\<open>prog.Push(v)\<close> with the error dropped, as in lines 129, 185 and 222.\<close>

definition push_unchecked :: "Stack \<Rightarrow> Value \<Rightarrow> Stack" where
  "push_unchecked s v = (case Push s v of Inl err \<Rightarrow> s | Inr s' \<Rightarrow> s')"

definition execInstPush :: "Value \<Rightarrow> Program \<Rightarrow> Channels \<Rightarrow> outcome" where
  "execInstPush v prog h =
     (case Push (Stack prog) v of
        Inl err \<Rightarrow> Inr (NotReady (Some (ErrorExecution (StackError err) (PC prog))), prog, h)
      | Inr s \<Rightarrow> Inr (Ready, prog\<lparr>Stack := s, PC := Suc (PC prog)\<rparr>, h))"

definition execInstAdd ::
  "(Value \<Rightarrow> Value \<Rightarrow> exec_panic + Value) \<Rightarrow> Program \<Rightarrow> Channels \<Rightarrow> outcome" where
  "execInstAdd add prog h =
     (case Pop (Stack prog) of
        Inl err \<Rightarrow> Inr (NotReady (Some (ErrorExecution (StackError err) (PC prog))), prog, h)
      | Inr (rhs, s1) \<Rightarrow>
          (case Pop s1 of
             Inl err \<Rightarrow>
               Inr (NotReady (Some (ErrorExecution (StackError err) (PC prog))),
                    prog\<lparr>Stack := s1\<rparr>, h)
           | Inr (lhs, s2) \<Rightarrow>
               (case (case lhs of
                        ValuePublic a \<Rightarrow> add lhs rhs
                      | ValuePrivate a \<Rightarrow> add lhs rhs
                      | ValuePrivateRn a b \<Rightarrow> Inl Unimplemented) of
                  Inl p \<Rightarrow> Inl p
                | Inr ret \<Rightarrow>
                    (case Push s2 ret of
                       Inl err \<Rightarrow>
                         Inr (NotReady (Some (ErrorExecution (StackError err) (PC prog))),
                              prog\<lparr>Stack := s2\<rparr>, h)
                     | Inr s3 \<Rightarrow> Inr (Ready, prog\<lparr>Stack := s3, PC := Suc (PC prog)\<rparr>, h)))))"

definition execInstRand :: "InstRand \<Rightarrow> Program \<Rightarrow> Channels \<Rightarrow> outcome" where
  "execInstRand inst prog h =
     (case (RhoCh inst, SigmaCh inst) of
        (Some rhoCh, Some sigmaCh) \<Rightarrow>
          (case (if RhoReady inst then Some (inst, prog, h)
                 else (case recv_share h rhoCh of
                         None \<Rightarrow> None
                       | Some (\<rho>, h1) \<Rightarrow>
                           (let inst1 = inst\<lparr>RhoReady := True, Rho := \<rho>\<rparr>
                            in Some (inst1, prog\<lparr>Code := (Code prog)[PC prog := InstRand inst1]\<rparr>, h1)))) of
             None \<Rightarrow> Inr (NotReady None, prog, h)
           | Some (inst1, prog1, h1) \<Rightarrow>
               (case (if SigmaReady inst1 then Some (inst1, prog1, h1)
                      else (case recv_share h1 sigmaCh of
                              None \<Rightarrow> None
                            | Some (\<sigma>, h2) \<Rightarrow>
                                (let inst2 = inst1\<lparr>SigmaReady := True, Sigma := \<sigma>\<rparr>
                                 in Some (inst2,
                                          prog1\<lparr>Code := (Code prog1)[PC prog1 := InstRand inst2]\<rparr>,
                                          h2)))) of
                  None \<Rightarrow> Inr (NotReady None, prog1, h1)
                | Some (inst2, prog2, h2) \<Rightarrow>
                    Inr (Ready,
                         prog2\<lparr>Stack := push_unchecked (Stack prog2)
                                            (ValuePrivateRn (Rho inst2) (Sigma inst2)),
                                PC := Suc (PC prog2)\<rparr>,
                         h2)))
      | _ \<Rightarrow>
          (let (rhoCh, h1) = make_chan h;
               (sigmaCh, h2) = make_chan h1;
               inst' = inst\<lparr>RhoCh := Some rhoCh, SigmaCh := Some sigmaCh\<rparr>
           in Inr (NotReady (Some (GenRn rhoCh sigmaCh)),
                   prog\<lparr>Code := (Code prog)[PC prog := InstRand inst']\<rparr>, h2)))"

definition execInstMul :: "InstMul \<Rightarrow> Program \<Rightarrow> Channels \<Rightarrow> outcome" where
  "execInstMul inst prog h =
     (case MulRetCh inst of
        None \<Rightarrow>
        (case Pop (Stack prog) of
           Inl err \<Rightarrow> Inr (NotReady (Some (ErrorExecution (StackError err) (PC prog))), prog, h)
         | Inr (rnValue, s1) \<Rightarrow>
             (case rnValue of
                ValuePrivateRn rn_rho rn_sigma \<Rightarrow>
                  (case Pop s1 of
                     Inl err \<Rightarrow>
                       Inr (NotReady (Some (ErrorExecution (StackError err) (PC prog))),
                            prog\<lparr>Stack := s1\<rparr>, h)
                   | Inr (yValue, s2) \<Rightarrow>
                       (case yValue of
                          ValuePrivate y \<Rightarrow>
                            (case Pop s2 of
                               Inl err \<Rightarrow>
                                 Inr (NotReady (Some (ErrorExecution (StackError err) (PC prog))),
                                      prog\<lparr>Stack := s2\<rparr>, h)
                             | Inr (xValue, s3) \<Rightarrow>
                                 (case xValue of
                                    ValuePrivate x \<Rightarrow>
                                      (let (newCh, h1) = make_chan h;
                                           inst' = inst\<lparr>MulRetCh := Some newCh\<rparr>
                                       in Inr (NotReady (Some (Multiply x y rn_rho rn_sigma newCh)),
                                               prog\<lparr>Stack := s3,
                                                    Code := (Code prog)[PC prog := InstMul inst']\<rparr>,
                                               h1))
                                  | _ \<Rightarrow>
                                      Inr (NotReady (Some (ErrorUnexpectedValue xValue
                                             (ValuePrivate zero_share) (PC prog))),
                                           prog\<lparr>Stack := s3\<rparr>, h)))
                        | _ \<Rightarrow>
                            Inr (NotReady (Some (ErrorUnexpectedValue yValue
                                   (ValuePrivate zero_share) (PC prog))),
                                 prog\<lparr>Stack := s2\<rparr>, h)))
              | _ \<Rightarrow>
                  Inr (NotReady (Some (ErrorUnexpectedValue rnValue
                         (ValuePrivateRn zero_share zero_share) (PC prog))),
                       prog\<lparr>Stack := s1\<rparr>, h)))
      | Some retCh \<Rightarrow>
        (case (if MulRetReady inst then Some (inst, prog, h)
               else (case recv_share h retCh of
                       None \<Rightarrow> None
                     | Some (ret, h1) \<Rightarrow>
                         (let inst1 = inst\<lparr>MulRetReady := True, MulRet := ret\<rparr>
                          in Some (inst1, prog\<lparr>Code := (Code prog)[PC prog := InstMul inst1]\<rparr>, h1)))) of
           None \<Rightarrow> Inr (NotReady None, prog, h)
         | Some (inst1, prog1, h1) \<Rightarrow>
             Inr (Ready,
                  prog1\<lparr>Stack := push_unchecked (Stack prog1) (ValuePrivate (MulRet inst1)),
                         PC := Suc (PC prog1)\<rparr>,
                  h1)))"

definition execInstOpen :: "InstOpen \<Rightarrow> Program \<Rightarrow> Channels \<Rightarrow> outcome" where
  "execInstOpen inst prog h =
     (case OpenRetCh inst of
        None \<Rightarrow>
        (case Pop (Stack prog) of
           Inl err \<Rightarrow> Inr (NotReady (Some (ErrorExecution (StackError err) (PC prog))), prog, h)
         | Inr (v, s1) \<Rightarrow>
             (case v of
                ValuePrivate sh \<Rightarrow>
                  (let (newCh, h1) = make_chan h;
                       inst' = inst\<lparr>OpenRetCh := Some newCh\<rparr>
                   in Inr (NotReady (Some (Open sh newCh)),
                           prog\<lparr>Stack := s1, Code := (Code prog)[PC prog := InstOpen inst']\<rparr>,
                           h1))
              | _ \<Rightarrow>
                  Inr (NotReady (Some (ErrorUnexpectedValue v (ValuePrivate zero_share) (PC prog))),
                       prog\<lparr>Stack := s1\<rparr>, h)))
      | Some retCh \<Rightarrow>
        (case (if OpenRetReady inst then Some (inst, prog, h)
               else (case recv_int h retCh of
                       None \<Rightarrow> None
                     | Some (ret, h1) \<Rightarrow>
                         (let inst1 = inst\<lparr>OpenRetReady := True, OpenRet := ret\<rparr>
                          in Some (inst1, prog\<lparr>Code := (Code prog)[PC prog := InstOpen inst1]\<rparr>, h1)))) of
           None \<Rightarrow> Inr (NotReady None, prog, h)
         | Some (inst1, prog1, h1) \<Rightarrow>
             Inr (Ready,
                  prog1\<lparr>Stack := push_unchecked (Stack prog1) (ValuePublic (OpenRet inst1)),
                         PC := Suc (PC prog1)\<rparr>,
                  h1)))"

definition Exec ::
  "(Value \<Rightarrow> Value \<Rightarrow> exec_panic + Value) \<Rightarrow> Program \<Rightarrow> Channels \<Rightarrow> outcome" where
  "Exec add prog h =
     (if length (Code prog) \<le> PC prog then Inr (NotReady (Some (ErrorCodeOverflow (PC prog))), prog, h)
      else (case Code prog ! PC prog of
              InstPush v \<Rightarrow> execInstPush v prog h
            | InstAdd \<Rightarrow> execInstAdd add prog h
            | InstRand inst \<Rightarrow> execInstRand inst prog h
            | InstMul inst \<Rightarrow> execInstMul inst prog h
            | InstOpen inst \<Rightarrow> execInstOpen inst prog h
            | InstOther \<Rightarrow> Inr (NotReady (Some (ErrorUnexpectedInst InstOther (PC prog))), prog, h)))"

subsection \<open>Example programs\<close>

text \<open>
  Modelled from the spec (4.9): \<^verbatim>\<open>Value.Add\<close> is not among the sources. Public and
  private operands add in every combination, a public constant moves the y-coordinate
  of a share; the spec defines nothing else, which is a panic here. It instantiates the
  parameter \<open>add\<close> in the examples only.
\<close>

definition value_add :: "int \<Rightarrow> Value \<Rightarrow> Value \<Rightarrow> exec_panic + Value" where
  "value_add q lhs rhs =
     (case (lhs, rhs) of
        (ValuePublic a, ValuePublic b) \<Rightarrow> Inr (ValuePublic (a + b))
      | (ValuePublic a, ValuePrivate s) \<Rightarrow>
          Inr (ValuePrivate (share_new (share_index s) ((a + share_value s) mod q)))
      | (ValuePrivate s, ValuePublic b) \<Rightarrow>
          Inr (ValuePrivate (share_new (share_index s) ((share_value s + b) mod q)))
      | (ValuePrivate s, ValuePrivate t) \<Rightarrow> Inr (ValuePrivate (share_add q s t))
      | _ \<Rightarrow> Inl AddPanic)"

text \<open>Example programs and channel stores.\<close>

definition ex_chans :: Channels where
  "ex_chans = \<lparr>share_slot = (\<lambda>c. None), int_slot = (\<lambda>c. None), next_chan = 0\<rparr>"

definition ex_stack :: "Value list \<Rightarrow> Stack" where
  "ex_stack vs = \<lparr>stack_values = vs, stack_limit = 8\<rparr>"

definition ex_finished :: Program where
  "ex_finished = (New [1] (ex_stack [ValuePublic 7]) Map.empty [InstPush (ValuePublic 7)])\<lparr>PC := 1\<rparr>"

definition ex_past_end :: Program where
  "ex_past_end = (New [2] (ex_stack [ValuePublic 3, ValuePublic 4]) Map.empty [])\<lparr>PC := 5\<rparr>"

definition ex_add_rn :: Program where
  "ex_add_rn = New [3] (ex_stack [ValuePublic 1, ValuePrivateRn (share_new 1 2) (share_new 1 3)])
                 Map.empty [InstAdd]"

definition ex_rand_prog :: Program where
  "ex_rand_prog = New [4] (ex_stack []) Map.empty
     [InstRand \<lparr>RhoCh = None, SigmaCh = None, RhoReady = False, Rho = zero_share,
                SigmaReady = False, Sigma = zero_share\<rparr>]"

definition ex_rand_waiting :: Program where
  "ex_rand_waiting = New [4] (ex_stack []) Map.empty
     [InstRand \<lparr>RhoCh = Some 0, SigmaCh = Some 1, RhoReady = False, Rho = zero_share,
                SigmaReady = False, Sigma = zero_share\<rparr>]"

definition ex_chans_made :: Channels where
  "ex_chans_made = \<lparr>share_slot = (\<lambda>c. None), int_slot = (\<lambda>c. None), next_chan = 2\<rparr>"

definition ex_chans_filled :: Channels where
  "ex_chans_filled = ex_chans_made\<lparr>share_slot := [0 \<mapsto> share_new 1 5, 1 \<mapsto> share_new 1 6]\<rparr>"

definition ex_mul_prog :: Program where
  "ex_mul_prog = New [5]
     (ex_stack [ValuePrivateRn (share_new 1 5) (share_new 1 6), ValuePrivate (share_new 1 3),
                ValuePrivate (share_new 1 2)])
     Map.empty
     [InstMul \<lparr>MulRetCh = None, MulRetReady = False, MulRet = zero_share\<rparr>]"

definition ex_open_prog :: Program where
  "ex_open_prog = New [6] (ex_stack [ValuePrivate (share_new 1 3)]) Map.empty
     [InstOpen \<lparr>OpenRetCh = None, OpenRetReady = False, OpenRet = 0\<rparr>]"

text \<open>
  A program on a stack with room for one value: it pushes a value and then asks for a
  random number. The programs after it are the ones that \<^verbatim>\<open>Exec\<close> makes of it, and
  \<open>ex_full_push_again\<close> has a second \<^verbatim>\<open>Push\<close> where the \<^verbatim>\<open>Rand\<close> is.
\<close>

definition ex_small_stack :: "Value list \<Rightarrow> Stack" where
  "ex_small_stack vs = \<lparr>stack_values = vs, stack_limit = 1\<rparr>"

definition ex_rand_fresh :: InstRand where
  "ex_rand_fresh = \<lparr>RhoCh = None, SigmaCh = None, RhoReady = False, Rho = zero_share,
                     SigmaReady = False, Sigma = zero_share\<rparr>"

definition ex_full_start :: Program where
  "ex_full_start = New [7] (ex_small_stack []) Map.empty
     [InstPush (ValuePublic 7), InstRand ex_rand_fresh]"

definition ex_full_pushed :: Program where
  "ex_full_pushed = ex_full_start\<lparr>Stack := ex_small_stack [ValuePublic 7], PC := 1\<rparr>"

definition ex_full_waiting :: Program where
  "ex_full_waiting = ex_full_pushed
     \<lparr>Code := [InstPush (ValuePublic 7),
               InstRand (ex_rand_fresh\<lparr>RhoCh := Some 0, SigmaCh := Some 1\<rparr>)]\<rparr>"

definition ex_full_done :: Program where
  "ex_full_done = ex_full_waiting
     \<lparr>Code := [InstPush (ValuePublic 7),
               InstRand \<lparr>RhoCh = Some 0, SigmaCh = Some 1, RhoReady = True, Rho = share_new 1 5,
                          SigmaReady = True, Sigma = share_new 1 6\<rparr>],
      PC := 2\<rparr>"

definition ex_full_push_again :: Program where
  "ex_full_push_again = ex_full_pushed
     \<lparr>Code := [InstPush (ValuePublic 7), InstPush (ValuePublic 9)]\<rparr>"
section \<open>The VM dispatcher (package vm)\<close>

text \<open>
  The dispatcher is written against package \<^verbatim>\<open>process\<close>, which is not among the sources:
  its \<^verbatim>\<open>Process\<close> type is the type parameter \<open>'p\<close>, and what the dispatcher uses of it
  (the \<^verbatim>\<open>ID\<close> field, \<^verbatim>\<open>Exec\<close>, the zero value that a lookup of a missing key returns) is
  the record \<open>process_ops\<close>. The intents are the ones the dispatcher switches on, with the
  fields it reads. The messages of the RNG and Open tasks that the dispatcher only
  forwards are opaque.
\<close>

type_synonym ID = "byte list"
type_synonym IntentID = "byte list"

typedecl RnShares
typedecl ProposeRnShare
typedecl OpenMsg

record rng_Result =
  rng_Result_id :: MessageID
  Rhos :: "share list"
  Sigmas :: "share list"

record open_Result =
  open_Result_id :: MessageID
  open_Value :: int

datatype process_Intent =
    process_IntentToError exec_error
  | IntentToExit "Value list"
  | IntentToGenerateRn IntentID nat chan
  | IntentToGenerateRnZero IntentID nat chan
  | IntentToGenerateRnTuple IntentID nat chan chan
  | process_IntentToMultiply IntentID "share list" "share list" "share list" "share list" chan
  | process_IntentToOpen IntentID share chan
  | process_IntentOther

record process_Return =
  process_intent :: "process_Intent option"
  process_ready :: bool

text \<open>
  The sinks of the process intents carry a batch of shares or one opened value; a send
  in a \<^verbatim>\<open>select\<close> with a \<^verbatim>\<open>default\<close> branch succeeds when the single slot is empty.
\<close>

record Sinks =
  shares_sink :: "chan \<Rightarrow> share list option"
  value_sink :: "chan \<Rightarrow> int option"

definition send_shares :: "Sinks \<Rightarrow> chan \<Rightarrow> share list \<Rightarrow> Sinks option" where
  "send_shares ch c v =
     (case shares_sink ch c of
        None \<Rightarrow> Some (ch\<lparr>shares_sink := (shares_sink ch)(c \<mapsto> v)\<rparr>)
      | Some old \<Rightarrow> None)"

definition send_value :: "Sinks \<Rightarrow> chan \<Rightarrow> int \<Rightarrow> Sinks option" where
  "send_value ch c v =
     (case value_sink ch c of
        None \<Rightarrow> Some (ch\<lparr>value_sink := (value_sink ch)(c \<mapsto> v)\<rparr>)
      | Some old \<Rightarrow> None)"

datatype vm_panic =
    UnexpectedVmMessageType
  | UnexpectedIntentType
  | UnexpectedRpcType
  | ProcessPanic

datatype task_error =
    ProcessIsReady ID
  | ProcessHasNoIntent ID
  | IntentFailed exec_error
  | UnavailableIntent
  | UnexpectedIntent

record 'p process_ops =
  process_ID :: "'p \<Rightarrow> ID"
  process_Exec :: "'p \<Rightarrow> Sinks \<Rightarrow> vm_panic + process_Return \<times> 'p \<times> Sinks"
  process_zero :: 'p

datatype rpc =
    RpcRnShares RnShares
  | RpcProposeRnShare ProposeRnShare
  | RpcOpenMul OpenMul
  | RpcOpen OpenMsg
  | RpcOther

datatype 'p vm_message =
    Exec_msg 'p
  | RemoteProcedureCall rpc
  | rng_RnShares RnShares
  | rng_ProposeRnShare ProposeRnShare
  | rng_Result rng_Result
  | mul_OpenMul OpenMul
  | mul_Result Result
  | open_Open OpenMsg
  | open_Result open_Result
  | task_Error task_error
  | OtherVmMessage

datatype vm_output =
    VmNil
  | VmError task_error
  | VmResult "Value list"
  | VmRemoteProcedureCall rpc

text \<open>What the dispatcher sends to its child tasks; \<^verbatim>\<open>Send\<close> appends to the child's inbox.\<close>

datatype rng_input =
    GenerateRn MessageID nat
  | GenerateRnZero MessageID nat
  | GenerateRnTuple MessageID nat
  | rng_input_RnShares RnShares
  | rng_input_ProposeRnShare ProposeRnShare

datatype open_input =
    open_Signal MessageID share
  | open_input_Open OpenMsg

record 'p VM =
  vm_index :: nat
  procs :: "ID \<rightharpoonup> 'p"
  intents :: "IntentID \<rightharpoonup> process_Intent"
  vm_rng :: "rng_input list"
  vm_mul :: "message list"
  vm_open :: "open_input list"

text \<open>
  \<^verbatim>\<open>copy(dst[:n], src[:n])\<close> into a zeroed array of \<open>n\<close> bytes, on byte lists of any
  length.
\<close>

definition copy_bytes :: "nat \<Rightarrow> byte list \<Rightarrow> byte list" where
  "copy_bytes n src = take n src @ replicate (n - length src) 0"

definition iidToMsgid :: "IntentID \<Rightarrow> MessageID" where
  "iidToMsgid iid = copy_bytes 40 iid"

definition msgidToIID :: "MessageID \<Rightarrow> IntentID" where
  "msgidToIID msgid = copy_bytes 40 msgid"

definition msgidToPid :: "MessageID \<Rightarrow> ID" where
  "msgidToPid msgid = copy_bytes 32 msgid"

type_synonym 'p vm_outcome = "vm_panic + vm_output \<times> 'p VM \<times> Sinks"

definition execIntent :: "'p VM \<Rightarrow> Sinks \<Rightarrow> process_Intent \<Rightarrow> 'p vm_outcome" where
  "execIntent vm ch it =
     (case it of
        process_IntentToError e \<Rightarrow> Inr (VmError (IntentFailed e), vm, ch)
      | IntentToExit vs \<Rightarrow> Inr (VmResult vs, vm, ch)
      | IntentToGenerateRn iid batch sigmas \<Rightarrow>
          Inr (VmNil,
               vm\<lparr>intents := (intents vm)(iid \<mapsto> it),
                  vm_rng := vm_rng vm @ [GenerateRn (iidToMsgid iid) batch]\<rparr>, ch)
      | IntentToGenerateRnZero iid batch sigmas \<Rightarrow>
          Inr (VmNil,
               vm\<lparr>intents := (intents vm)(iid \<mapsto> it),
                  vm_rng := vm_rng vm @ [GenerateRnZero (iidToMsgid iid) batch]\<rparr>, ch)
      | IntentToGenerateRnTuple iid batch rhos sigmas \<Rightarrow>
          Inr (VmNil,
               vm\<lparr>intents := (intents vm)(iid \<mapsto> it),
                  vm_rng := vm_rng vm @ [GenerateRnTuple (iidToMsgid iid) batch]\<rparr>, ch)
      | process_IntentToMultiply iid xs ys rhos sigmas ret \<Rightarrow>
          Inr (VmNil,
               vm\<lparr>intents := (intents vm)(iid \<mapsto> it),
                  vm_mul := vm_mul vm @
                    [MulMessage \<lparr>Mul_id = iidToMsgid iid, Mul_xs = xs, Mul_ys = ys,
                                 Mul_rhos = rhos, Mul_sigmas = sigmas\<rparr>]\<rparr>, ch)
      | process_IntentToOpen iid v ret \<Rightarrow>
          Inr (VmNil,
               vm\<lparr>intents := (intents vm)(iid \<mapsto> it),
                  vm_open := vm_open vm @ [open_Signal (iidToMsgid iid) v]\<rparr>, ch)
      | process_IntentOther \<Rightarrow> Inl UnexpectedIntentType)"

definition exec :: "'p process_ops \<Rightarrow> 'p VM \<Rightarrow> Sinks \<Rightarrow> 'p \<Rightarrow> 'p vm_outcome" where
  "exec ops vm ch proc =
     (let vm1 = vm\<lparr>procs := (procs vm)(process_ID ops proc \<mapsto> proc)\<rparr> in
      case process_Exec ops proc ch of
        Inl p \<Rightarrow> Inl p
      | Inr (ret, proc', ch') \<Rightarrow>
          (let vm2 = vm1\<lparr>procs := (procs vm1)(process_ID ops proc' \<mapsto> proc')\<rparr> in
           if process_ready ret then Inr (VmError (ProcessIsReady (process_ID ops proc')), vm2, ch')
           else (case process_intent ret of
                   None \<Rightarrow> Inr (VmError (ProcessHasNoIntent (process_ID ops proc')), vm2, ch')
                 | Some it \<Rightarrow> execIntent vm2 ch' it)))"

definition invoke :: "'p VM \<Rightarrow> Sinks \<Rightarrow> rpc \<Rightarrow> 'p vm_outcome" where
  "invoke vm ch message =
     (case message of
        RpcRnShares m \<Rightarrow> Inr (VmNil, vm\<lparr>vm_rng := vm_rng vm @ [rng_input_RnShares m]\<rparr>, ch)
      | RpcProposeRnShare m \<Rightarrow>
          Inr (VmNil, vm\<lparr>vm_rng := vm_rng vm @ [rng_input_ProposeRnShare m]\<rparr>, ch)
      | RpcOpenMul m \<Rightarrow> Inr (VmNil, vm\<lparr>vm_mul := vm_mul vm @ [OpenMulMessage m]\<rparr>, ch)
      | RpcOpen m \<Rightarrow> Inr (VmNil, vm\<lparr>vm_open := vm_open vm @ [open_input_Open m]\<rparr>, ch)
      | RpcOther \<Rightarrow> Inl UnexpectedRpcType)"

text \<open>
  The end of the three \<^verbatim>\<open>recvInternal...Result\<close> functions: the intent is dropped and
  the owning process runs again (a missing process is the zero value).
\<close>

definition resume :: "'p process_ops \<Rightarrow> 'p VM \<Rightarrow> Sinks \<Rightarrow> MessageID \<Rightarrow> 'p vm_outcome" where
  "resume ops vm ch msgid =
     (let vm' = vm\<lparr>intents := (intents vm)(msgidToIID msgid := None)\<rparr> in
      exec ops vm' ch
        (case procs vm' (msgidToPid msgid) of None \<Rightarrow> process_zero ops | Some proc \<Rightarrow> proc))"

definition recvInternalRngResult ::
  "'p process_ops \<Rightarrow> 'p VM \<Rightarrow> Sinks \<Rightarrow> rng_Result \<Rightarrow> 'p vm_outcome" where
  "recvInternalRngResult ops vm ch message =
     (case intents vm (msgidToIID (rng_Result_id message)) of
        None \<Rightarrow> Inr (VmNil, vm, ch)
      | Some it \<Rightarrow>
          (case it of
             IntentToGenerateRn iid batch sigmas \<Rightarrow>
               (case send_shares ch sigmas (Sigmas message) of
                  None \<Rightarrow> Inr (VmError UnavailableIntent, vm, ch)
                | Some ch1 \<Rightarrow> resume ops vm ch1 (rng_Result_id message))
           | IntentToGenerateRnZero iid batch sigmas \<Rightarrow>
               (case send_shares ch sigmas (Sigmas message) of
                  None \<Rightarrow> Inr (VmError UnavailableIntent, vm, ch)
                | Some ch1 \<Rightarrow> resume ops vm ch1 (rng_Result_id message))
           | IntentToGenerateRnTuple iid batch rhos sigmas \<Rightarrow>
               (case send_shares ch rhos (Rhos message) of
                  None \<Rightarrow> Inr (VmError UnavailableIntent, vm, ch)
                | Some ch1 \<Rightarrow>
                    (case send_shares ch1 sigmas (Sigmas message) of
                       None \<Rightarrow> Inr (VmError UnavailableIntent, vm, ch1)
                     | Some ch2 \<Rightarrow> resume ops vm ch2 (rng_Result_id message)))
           | _ \<Rightarrow> Inl UnexpectedIntentType))"

definition recvInternalMulResult ::
  "'p process_ops \<Rightarrow> 'p VM \<Rightarrow> Sinks \<Rightarrow> Result \<Rightarrow> 'p vm_outcome" where
  "recvInternalMulResult ops vm ch message =
     (case intents vm (msgidToIID (Result_id message)) of
        None \<Rightarrow> Inr (VmNil, vm, ch)
      | Some it \<Rightarrow>
          (case it of
             process_IntentToMultiply iid xs ys rhos sigmas ret \<Rightarrow>
               (case send_shares ch ret (Result_Shares message) of
                  None \<Rightarrow> Inr (VmError UnavailableIntent, vm, ch)
                | Some ch1 \<Rightarrow> resume ops vm ch1 (Result_id message))
           | _ \<Rightarrow> Inr (VmError UnexpectedIntent, vm, ch)))"

definition recvInternalOpenResult ::
  "'p process_ops \<Rightarrow> 'p VM \<Rightarrow> Sinks \<Rightarrow> open_Result \<Rightarrow> 'p vm_outcome" where
  "recvInternalOpenResult ops vm ch message =
     (case intents vm (msgidToIID (open_Result_id message)) of
        None \<Rightarrow> Inr (VmNil, vm, ch)
      | Some it \<Rightarrow>
          (case it of
             process_IntentToOpen iid v ret \<Rightarrow>
               (case send_value ch ret (open_Value message) of
                  None \<Rightarrow> Inr (VmError UnavailableIntent, vm, ch)
                | Some ch1 \<Rightarrow> resume ops vm ch1 (open_Result_id message))
           | _ \<Rightarrow> Inr (VmError UnexpectedIntent, vm, ch)))"

definition vm_Reduce ::
  "'p process_ops \<Rightarrow> 'p VM \<Rightarrow> Sinks \<Rightarrow> 'p vm_message \<Rightarrow> 'p vm_outcome" where
  "vm_Reduce ops vm ch message =
     (case message of
        Exec_msg proc \<Rightarrow> exec ops vm ch proc
      | RemoteProcedureCall m \<Rightarrow> invoke vm ch m
      | rng_RnShares m \<Rightarrow> Inr (VmRemoteProcedureCall (RpcRnShares m), vm, ch)
      | rng_ProposeRnShare m \<Rightarrow> Inr (VmRemoteProcedureCall (RpcProposeRnShare m), vm, ch)
      | rng_Result m \<Rightarrow> recvInternalRngResult ops vm ch m
      | mul_OpenMul m \<Rightarrow> Inr (VmRemoteProcedureCall (RpcOpenMul m), vm, ch)
      | mul_Result m \<Rightarrow> recvInternalMulResult ops vm ch m
      | open_Open m \<Rightarrow> Inr (VmRemoteProcedureCall (RpcOpen m), vm, ch)
      | open_Result m \<Rightarrow> recvInternalOpenResult ops vm ch m
      | task_Error e \<Rightarrow> Inr (VmError e, vm, ch)
      | OtherVmMessage \<Rightarrow> Inl UnexpectedVmMessageType)"

text \<open>
  An example dispatcher: processes are numbers, the process with the id of 32 bytes 1
  waits for the result of an \<^verbatim>\<open>Open\<close> intent registered under the id of 40 bytes 1.
\<close>

definition ex_ops :: "nat process_ops" where
  "ex_ops = \<lparr>process_ID = (\<lambda>p. replicate 32 (of_nat p)),
             process_Exec = (\<lambda>p ch. Inr (\<lparr>process_intent = None, process_ready = True\<rparr>, p, ch)),
             process_zero = 0\<rparr>"

definition ex_sinks :: Sinks where
  "ex_sinks = \<lparr>shares_sink = (\<lambda>c. None), value_sink = (\<lambda>c. None)\<rparr>"

definition ex_vm :: "nat VM" where
  "ex_vm = \<lparr>vm_index = 1, procs = [replicate 32 1 \<mapsto> 1],
            intents = [replicate 40 1 \<mapsto> process_IntentToOpen (replicate 40 1) (share_new 1 3) 0],
            vm_rng = [], vm_mul = [], vm_open = []\<rparr>"

section \<open>Pedersen commitments and verifiable secret sharing\<close>

text \<open>
  Modelled from the spec (4.3): package \<^verbatim>\<open>pedersen\<close> is not among the sources, only its
  tests are. A scheme is \<open>(p, q, g, h)\<close>; \<^verbatim>\<open>New\<close> validates \<open>q | (p - 1)\<close>,
  \<open>g\<^sup>q \<equiv> 1\<close>, \<open>h\<^sup>q \<equiv> 1 (mod p)\<close>, \<open>g \<noteq> 1\<close>, \<open>h \<noteq> 1\<close> and fails on a \<^verbatim>\<open>nil\<close>
  parameter; \<open>Commit(s, t) = g\<^sup>s \<cdot> h\<^sup>t mod p\<close>, \<^verbatim>\<open>nil\<close> on a \<^verbatim>\<open>nil\<close> argument (the
  tests); \<open>Verify(s, t, C)\<close> is OK (\<open>None\<close>) iff \<open>C = Commit(s, t)\<close>,
  \<open>UnacceptableCommitment\<close> otherwise, \<open>NilArguments\<close> if an input is absent. A
  \<^verbatim>\<open>*big.Int\<close> is an \<open>int option\<close>. Exponentiation is square-and-multiply over the bits of
  the exponent.
\<close>

record Pedersen =
  ped_p :: int
  ped_q :: int
  ped_g :: int
  ped_h :: int

datatype pedersen_error = ErrNilArguments | ErrUnacceptableCommitment | ErrInvalidParameters

function modexp :: "int \<Rightarrow> nat \<Rightarrow> int \<Rightarrow> int" where
  "modexp b e m =
     (if e = 0 then 1 mod m
      else (let r = modexp b (e div 2) m; sq = r * r mod m
            in if even e then sq else sq * b mod m))"
  by pat_completeness auto
termination
  by (relation "measure (\<lambda>(b, e, m). e)") auto

declare modexp.simps [simp del]

definition pedersen_New ::
  "int option \<Rightarrow> int option \<Rightarrow> int option \<Rightarrow> int option \<Rightarrow> pedersen_error + Pedersen" where
  "pedersen_New p q g h =
     (case (p, q, g, h) of
        (Some p', Some q', Some g', Some h') \<Rightarrow>
          if q' dvd (p' - 1) \<and> modexp g' (nat q') p' = 1 \<and> modexp h' (nat q') p' = 1
             \<and> g' \<noteq> 1 \<and> h' \<noteq> 1
          then Inr \<lparr>ped_p = p', ped_q = q', ped_g = g', ped_h = h'\<rparr>
          else Inl ErrInvalidParameters
      | _ \<Rightarrow> Inl ErrNilArguments)"

definition Commit :: "Pedersen \<Rightarrow> int option \<Rightarrow> int option \<Rightarrow> int option" where
  "Commit ped s t =
     (case (s, t) of
        (Some s', Some t') \<Rightarrow>
          Some (modexp (ped_g ped) (nat s') (ped_p ped) * modexp (ped_h ped) (nat t') (ped_p ped)
                  mod ped_p ped)
      | _ \<Rightarrow> None)"

definition pedersen_Verify ::
  "Pedersen \<Rightarrow> int option \<Rightarrow> int option \<Rightarrow> int option \<Rightarrow> pedersen_error option" where
  "pedersen_Verify ped s t commitment =
     (case (s, t, commitment) of
        (Some s', Some t', Some c) \<Rightarrow>
          if Commit ped s t = Some c then None else Some ErrUnacceptableCommitment
      | _ \<Rightarrow> Some ErrNilArguments)"

text \<open>The first scheme of the test tables: \<open>(503, 251, 351, 8)\<close>.\<close>

definition ex_ped :: Pedersen where
  "ex_ped = \<lparr>ped_p = 503, ped_q = 251, ped_g = 351, ped_h = 8\<rparr>"

subsection \<open>Verifiable secret sharing\<close>

text \<open>
  Modelled from the spec (4.2, 4.4): packages \<^verbatim>\<open>shamir\<close> and \<^verbatim>\<open>vss\<close> are not among the
  sources, only the tests of \<^verbatim>\<open>vss\<close> are. The random choices of \<^verbatim>\<open>Share\<close> are
  arguments: the blinding \<open>r\<close> and the coefficients \<open>a\<^sub>1 \<dots> a\<^sub>k\<^sub>-\<^sub>1\<close> and
  \<open>b\<^sub>1 \<dots> b\<^sub>k\<^sub>-\<^sub>1\<close>, so \<open>k\<close> is one more than their number. The field is the one of
  the scheme's \<open>q\<close>. A polynomial is its coefficient list, constant first.
\<close>

fun poly_eval :: "int list \<Rightarrow> int \<Rightarrow> int" where
  "poly_eval [] x = 0"
| "poly_eval (c # cs) x = c + x * poly_eval cs x"

text \<open>\<open>Share(s, n, k)\<close> of 4.2: the points \<open>(i, f(i))\<close> for \<open>i = 1..n\<close>.\<close>

definition shamir_Share :: "int \<Rightarrow> int \<Rightarrow> int list \<Rightarrow> nat \<Rightarrow> share list" where
  "shamir_Share q s as n =
     map (\<lambda>i. share_new i (poly_eval (s # as) (int i) mod q)) [1..<Suc n]"

record VShare =
  vs_share :: share
  vs_rshare :: share
  vs_commitments :: "int list"

text \<open>\<open>C\<^sub>j = g\<^bsup>a\<^sub>j\<^esup> \<cdot> h\<^bsup>b\<^sub>j\<^esup> mod p\<close> for the coefficients of the two polynomials.\<close>

definition commit_coeffs :: "Pedersen \<Rightarrow> int list \<Rightarrow> int list \<Rightarrow> int list" where
  "commit_coeffs ped fs gs =
     map (\<lambda>(a, b). modexp (ped_g ped) (nat a) (ped_p ped) * modexp (ped_h ped) (nat b) (ped_p ped)
                      mod ped_p ped)
         (zip fs gs)"

definition vss_Share ::
  "Pedersen \<Rightarrow> int \<Rightarrow> int \<Rightarrow> int list \<Rightarrow> int list \<Rightarrow> nat \<Rightarrow> VShare list" where
  "vss_Share ped s r as bs n =
     map (\<lambda>i. \<lparr>vs_share = share_new i (poly_eval (s # as) (int i) mod ped_q ped),
               vs_rshare = share_new i (poly_eval (r # bs) (int i) mod ped_q ped),
               vs_commitments = commit_coeffs ped (s # as) (r # bs)\<rparr>)
         [1..<Suc n]"

text \<open>
  \<open>Verify\<close> of 4.4: \<open>g\<^sup>y \<cdot> h\<^bsup>y'\<^esup> mod p\<close> against \<open>\<Prod>\<^sub>j C\<^sub>j\<^bsup>i^j\<^esup> mod p\<close>; it panics on an
  empty commitment vector.
\<close>

datatype vss_panic = NoCommitments

fun commit_product :: "int \<Rightarrow> nat \<Rightarrow> nat \<Rightarrow> int list \<Rightarrow> int" where
  "commit_product p i j [] = 1 mod p"
| "commit_product p i j (c # cs) = modexp c (i ^ j) p * commit_product p i (Suc j) cs mod p"

definition vss_Verify :: "Pedersen \<Rightarrow> VShare \<Rightarrow> vss_panic + bool" where
  "vss_Verify ped vs =
     (if vs_commitments vs = [] then Inl NoCommitments
      else Inr (modexp (ped_g ped) (nat (share_value (vs_share vs))) (ped_p ped)
                  * modexp (ped_h ped) (nat (share_value (vs_rshare vs))) (ped_p ped) mod ped_p ped
                = commit_product (ped_p ped) (share_index (vs_share vs)) 0 (vs_commitments vs)))"

text \<open>
  Addition of 4.4: both inner shares are added, the commitment vectors are multiplied
  pointwise.
\<close>

definition vs_Add :: "Pedersen \<Rightarrow> VShare \<Rightarrow> VShare \<Rightarrow> VShare" where
  "vs_Add ped a b =
     \<lparr>vs_share = share_add (ped_q ped) (vs_share a) (vs_share b),
      vs_rshare = share_add (ped_q ped) (vs_rshare a) (vs_rshare b),
      vs_commitments = map (\<lambda>(x, y). x * y mod ped_p ped) (zip (vs_commitments a) (vs_commitments b))\<rparr>"

text \<open>Primality, by trial division.\<close>

definition is_prime :: "int \<Rightarrow> bool" where
  "is_prime q \<longleftrightarrow> 1 < q \<and> (\<forall>m\<in>{2..<q}. \<not> m dvd q)"

text \<open>The Lagrange coefficient and the interpolation sum before reduction modulo \<open>q\<close>.\<close>

definition lag :: "int \<Rightarrow> int list \<Rightarrow> int \<Rightarrow> int" where
  "lag q xs xi = prod_list (map (\<lambda>xj. xj * fp_inv q (xj - xi)) (filter (\<lambda>xj. xj \<noteq> xi) xs))"

definition interp :: "int \<Rightarrow> int list \<Rightarrow> (int \<Rightarrow> int) \<Rightarrow> int" where
  "interp q xs f = sum_list (map (\<lambda>x. f x * lag q xs x) xs)"

text \<open>A small scheme: \<open>(7, 3, 2, 4)\<close>.\<close>

definition ex_small :: Pedersen where
  "ex_small = \<lparr>ped_p = 7, ped_q = 3, ped_g = 2, ped_h = 4\<rparr>"

text \<open>The x-coordinate of a share in the field.\<close>

definition xof :: "int \<Rightarrow> share \<Rightarrow> int" where
  "xof q s = int (share_index s) mod q"

text \<open>The value of a polynomial with coefficients in \<open>[0, q)\<close> at an index, as a natural number (an exponent).\<close>

fun npoly :: "int list \<Rightarrow> nat \<Rightarrow> nat" where
  "npoly [] i = 0"
| "npoly (c # cs) i = nat c + i * npoly cs i"

text \<open>The coefficientwise sum of two polynomials, and the componentwise sums \<open>A[i] + B[i]\<close> of two sharings.\<close>

definition add_coeffs :: "int list \<Rightarrow> int list \<Rightarrow> int list" where
  "add_coeffs fs gs = map (\<lambda>(x, y). x + y) (zip fs gs)"

definition vs_sums :: "Pedersen \<Rightarrow> VShare list \<Rightarrow> VShare list \<Rightarrow> VShare list" where
  "vs_sums ped A B = map (\<lambda>(x, y). vs_Add ped x y) (zip A B)"

text \<open>
  The scenario of the spec: \<open>q = 251\<close>, \<open>k = 3\<close>, \<open>n = 5\<close>, secret 17, with the scheme
  \<open>(503, 251, 351, 8)\<close>; and a second sharing, of 240.
\<close>

definition ex_sharing :: "VShare list" where
  "ex_sharing = vss_Share ex_ped 17 5 [3, 200] [7, 9] 5"

definition ex_sharing2 :: "VShare list" where
  "ex_sharing2 = vss_Share ex_ped 240 6 [30, 20] [70, 90] 5"

section \<open>Properties of the multiplication task\<close>

lemma mul_cached: "results m (Mul_id msg) = Some r \<Longrightarrow> mul q m msg = Inr (ResultMessage r, m)"
  by (simp add: mul_def)

lemma results_storeOpenMul [simp]: "results (storeOpenMul m om) = results m"
  by (simp add: storeOpenMul_def)

lemma tryOpenMul_cached:
  "results m (OpenMul_id om) = Some r \<Longrightarrow> tryOpenMul q m om = Inr (NilMessage, storeOpenMul m om)"
  by (simp add: tryOpenMul_def Let_def)

lemma Reduce_cached:
  assumes "results m i = Some r" and "for_id i x"
  shows "\<exists>m'. Reduce q m x = Inr (cached_reply r x, m') \<and> results m' = results m"
  using assms
  by (cases x) (auto simp: Reduce_def for_id_def cached_reply_def mul_cached tryOpenMul_cached)

lemma run_cached:
  "results m i = Some r \<Longrightarrow> \<forall>x\<in>set msgs. for_id i x \<Longrightarrow>
   \<exists>m'. run q m msgs = Inr (map (cached_reply r) msgs, m') \<and> results m' = results m"
proof (induction msgs arbitrary: m)
  case Nil
  then show ?case by simp
next
  case (Cons x xs)
  from Cons.prems obtain m1 where
    s: "Reduce q m x = Inr (cached_reply r x, m1)" and r1: "results m1 = results m"
    using Reduce_cached [of m i r x q] by auto
  from Cons.prems r1 have "results m1 i = Some r" by simp
  with Cons.IH [of m1] Cons.prems obtain m2 where
    "run q m1 xs = Inr (map (cached_reply r) xs, m2)" and "results m2 = results m1"
    by auto
  with s r1 show ?case by simp
qed

text \<open>
  Claim C10. Once the multiplier holds a result \<open>r\<close> for the id \<open>i\<close> in its results
  cache: a \<^verbatim>\<open>Mul\<close> for \<open>i\<close> returns exactly \<open>r\<close> and leaves the whole state (so also
  the cache) as it was; an \<^verbatim>\<open>OpenMul\<close> for \<open>i\<close> returns \<^verbatim>\<open>nil\<close> and leaves the cache
  as it was; and so for every sequence of later messages for \<open>i\<close>: each \<^verbatim>\<open>Mul\<close> is
  answered by \<open>r\<close>, each \<^verbatim>\<open>OpenMul\<close> by \<^verbatim>\<open>nil\<close>, nothing panics and the cache stays.
\<close>

theorem cached_result_is_final:
  "results m i = Some r \<Longrightarrow>
     (\<forall>msg. Mul_id msg = i \<longrightarrow> mul q m msg = Inr (ResultMessage r, m)) \<and>
     (\<forall>om. OpenMul_id om = i \<longrightarrow>
        (\<exists>m'. tryOpenMul q m om = Inr (NilMessage, m') \<and> results m' = results m)) \<and>
     (\<forall>msgs. (\<forall>x\<in>set msgs. for_id i x) \<longrightarrow>
        (\<exists>m'. run q m msgs = Inr (map (cached_reply r) msgs, m') \<and> results m' = results m))"
  using run_cached [of m i r _ q]
  by (auto simp: mul_cached tryOpenMul_cached)

theorem cached_result_is_final_witness:
  "results ex_cached [1] = Some ex_result \<and>
   mul 7 ex_cached ex_mul = Inr (ResultMessage ex_result, ex_cached) \<and>
   (\<exists>m'. run 7 ex_cached [OpenMulMessage (NewOpenMul [1] 2 [share_new 2 6]), MulMessage ex_mul]
      = Inr ([NilMessage, ResultMessage ex_result], m') \<and> results m' = results ex_cached)"
proof -
  have h: "results ex_cached [1] = Some ex_result"
    by (simp add: ex_cached_def newMultiplier_def)
  have f: "\<forall>x\<in>set [OpenMulMessage (NewOpenMul [1] 2 [share_new 2 6]), MulMessage ex_mul]. for_id [1] x"
    by (simp add: for_id_def NewOpenMul_def ex_mul_def)
  have m: "Mul_id ex_mul = [1]" by (simp add: ex_mul_def)
  note T = cached_result_is_final [OF h, of 7]
  from T m have a: "mul 7 ex_cached ex_mul = Inr (ResultMessage ex_result, ex_cached)"
    by blast
  from T f have "\<exists>m'. run 7 ex_cached [OpenMulMessage (NewOpenMul [1] 2 [share_new 2 6]), MulMessage ex_mul]
      = Inr (map (cached_reply ex_result) [OpenMulMessage (NewOpenMul [1] 2 [share_new 2 6]), MulMessage ex_mul], m')
      \<and> results m' = results ex_cached"
    by blast
  then have b: "\<exists>m'. run 7 ex_cached [OpenMulMessage (NewOpenMul [1] 2 [share_new 2 6]), MulMessage ex_mul]
      = Inr ([NilMessage, ResultMessage ex_result], m') \<and> results m' = results ex_cached"
    by (simp add: cached_reply_def)
  from h a b show ?thesis by blast
qed

lemma tryOpenMul_cases:
  assumes "tryOpenMul q m om = Inr (out, m')"
  shows "(out = NilMessage \<and> m' = storeOpenMul m om \<and>
          (length (openings (storeOpenMul m om) (OpenMul_id om)) < m_k m \<or>
           muls m (OpenMul_id om) = None \<or> results m (OpenMul_id om) \<noteq> None)) \<or>
         (\<exists>shares. out = ResultMessage (NewResult (OpenMul_id om) shares) \<and>
            m' = (storeOpenMul m om)
                   \<lparr>results := (results m)(OpenMul_id om \<mapsto> NewResult (OpenMul_id om) shares),
                    muls := (muls m)(OpenMul_id om := None),
                    opens := (opens (storeOpenMul m om))(OpenMul_id om := None)\<rparr> \<and>
            m_k m \<le> length (openings (storeOpenMul m om) (OpenMul_id om)) \<and>
            muls m (OpenMul_id om) \<noteq> None \<and> results m (OpenMul_id om) = None)"
  using assms
  by (auto simp: tryOpenMul_def Let_def storeOpenMul_def split: if_splits sum.splits)

lemma openings_storeOpenMul:
  "openings (storeOpenMul m om) j =
     (if j = OpenMul_id om then AList.update (From om) om (openings m j) else openings m j)"
  by (simp add: storeOpenMul_def openings_def)

lemma storeOpenMul_fields [simp]:
  "muls (storeOpenMul m om) = muls m" "m_k (storeOpenMul m om) = m_k m"
  "m_index (storeOpenMul m om) = m_index m" "m_n (storeOpenMul m om) = m_n m"
  by (simp_all add: storeOpenMul_def)

lemma run_append:
  "run q m (ms @ ns) =
     (case run q m ms of
        Inl e \<Rightarrow> Inl e
      | Inr (outs, m') \<Rightarrow>
          (case run q m' ns of Inl e \<Rightarrow> Inl e | Inr (outs2, m'') \<Rightarrow> Inr (outs @ outs2, m'')))"
  by (induction ms arbitrary: m) (auto split: sum.splits prod.splits)

lemma run_snoc:
  assumes "run q m (ms @ [x]) = Inr (outs', m'')"
  obtains outs m' out where "run q m ms = Inr (outs, m')" and "Reduce q m' x = Inr (out, m'')"
    and "outs' = outs @ [out]"
  using assms by (auto simp: run_append split: sum.splits prod.splits)

lemma finite_keys_card:
  "distinct (map fst al) \<Longrightarrow> length al = card (set (map fst al))"
  by (metis distinct_card length_map)

lemma tryOpenMul_nil_or_result:
  assumes "tryOpenMul q m om = Inr (out, m')"
  obtains
    (nil) "out = NilMessage" "m' = storeOpenMul m om"
      "length (openings (storeOpenMul m om) (OpenMul_id om)) < m_k m \<or>
       muls m (OpenMul_id om) = None \<or> results m (OpenMul_id om) \<noteq> None"
  | (res) shares where "out = ResultMessage (NewResult (OpenMul_id om) shares)"
      "m' = (storeOpenMul m om)
               \<lparr>results := (results m)(OpenMul_id om \<mapsto> NewResult (OpenMul_id om) shares),
                muls := (muls m)(OpenMul_id om := None),
                opens := (opens (storeOpenMul m om))(OpenMul_id om := None)\<rparr>"
      "m_k m \<le> length (openings (storeOpenMul m om) (OpenMul_id om))"
      "muls m (OpenMul_id om) \<noteq> None" "results m (OpenMul_id om) = None"
  using tryOpenMul_cases [OF assms] by blast

lemma openings_muls_update [simp]: "openings (m\<lparr>muls := f\<rparr>) = openings m"
  by (simp add: openings_def fun_eq_iff)

lemma NewOpenMul_sel [simp]:
  "OpenMul_id (NewOpenMul a b c) = a" "From (NewOpenMul a b c) = b" "Shares (NewOpenMul a b c) = c"
  by (simp_all add: NewOpenMul_def)

lemma signalled_snoc: "signalled i (ms @ [x]) \<longleftrightarrow> signalled i ms \<or> is_mul_for i x"
  by (auto simp: signalled_def)

lemma senders_snoc: "senders i idx (ms @ [x]) = senders i idx ms \<union> set (sender_of i idx x)"
  by (simp add: senders_def)

lemma signalled_filter: "signalled i ms \<Longrightarrow> 1 \<le> length (filter (is_mul_for i) ms)"
  by (induction ms) (auto simp: signalled_def)

lemma finite_senders [simp]: "finite (senders i idx ms)"
  by (simp add: senders_def)

lemma collect_Inr:
  "collect rs = Inr vs \<Longrightarrow> rs = map Inr vs"
  by (induction rs arbitrary: vs) (auto split: sum.splits)

lemma ForAll_Inr:
  assumes "ForAll batch f = Inr vs"
  shows "length vs = batch" and "\<And>b. b < batch \<Longrightarrow> f b = Inr (vs ! b)"
proof -
  from assms have e: "map f [0..<batch] = map Inr vs"
    by (simp add: ForAll_def collect_Inr)
  then have "length (map f [0..<batch]) = length (map Inr vs)" by simp
  then show l: "length vs = batch" by simp
  fix b assume "b < batch"
  with e l have "map f [0..<batch] ! b = map Inr vs ! b" by simp
  with \<open>b < batch\<close> l show "f b = Inr (vs ! b)" by simp
qed

lemma fillSharesCache_Inr:
  "fillSharesCache n b ops cache = Inr res \<Longrightarrow>
     res = cache @ map (\<lambda>opening. Shares opening ! b) ops \<and>
     (ops \<noteq> [] \<longrightarrow> length res \<le> n) \<and> (\<forall>opening\<in>set ops. b < length (Shares opening))"
proof (induction ops arbitrary: cache)
  case Nil
  then show ?case by simp
next
  case (Cons a ops)
  from Cons.prems have c: "length cache < n" "b < length (Shares a)"
    and r: "fillSharesCache n b ops (cache @ [Shares a ! b]) = Inr res"
    by (auto split: if_splits)
  from Cons.IH [OF r] c show ?case
    by (cases ops) auto
qed

lemma length_alist_update:
  "length (AList.update k v al) = (if k \<in> fst ` set al then length al else Suc (length al))"
  by (induction al) auto

lemma Join_Inr_distinct:
  "Join q shares = Inr v \<Longrightarrow> shares \<noteq> [] \<and> distinct (map share_index shares)"
  by (auto simp: Join_def split: if_splits)

lemma storeOpenMul_last_wins:
  "map_of (openings (storeOpenMul m msg) (OpenMul_id msg)) (From msg) = Some msg"
  by (simp add: openings_storeOpenMul update_conv')

lemma storeOpenMul_counted_once:
  "length (openings (storeOpenMul m msg) (OpenMul_id msg)) =
     (if From msg \<in> fst ` set (openings m (OpenMul_id msg))
      then length (openings m (OpenMul_id msg)) else Suc (length (openings m (OpenMul_id msg))))"
  by (simp add: openings_storeOpenMul length_alist_update)

lemma storeOpenMul_idem: "storeOpenMul (storeOpenMul m msg) msg = storeOpenMul m msg"
  by (simp add: storeOpenMul_def openings_def)

lemma tryOpenMul_duplicate_below_quorum:
  assumes "From msg \<in> fst ` set (openings m (OpenMul_id msg))"
    and "length (openings m (OpenMul_id msg)) < m_k m"
  shows "tryOpenMul q m msg = Inr (NilMessage, storeOpenMul m msg)"
  using assms by (simp add: tryOpenMul_def Let_def storeOpenMul_counted_once)

lemma tryOpenMul_idem:
  assumes "tryOpenMul q m msg = Inr (NilMessage, m1)"
  shows "tryOpenMul q m1 msg = Inr (NilMessage, m1)"
proof -
  from assms have m1: "m1 = storeOpenMul m msg"
    by (auto simp: tryOpenMul_def Let_def split: if_splits sum.splits)
  from assms show ?thesis
    unfolding m1
    by (auto simp: tryOpenMul_def Let_def storeOpenMul_idem split: if_splits sum.splits)
qed

lemma run_length: "run q m msgs = Inr (outs, m') \<Longrightarrow> length outs = length msgs"
  by (induction msgs arbitrary: m outs) (auto split: sum.splits prod.splits)

lemma run_take:
  assumes "run q m msgs = Inr (outs, m')"
  shows "\<exists>m''. run q m (take j msgs) = Inr (take j outs, m'')"
proof -
  have "run q m (take j msgs @ drop j msgs) = Inr (outs, m')" using assms by simp
  then obtain o1 m1 o2 where a: "run q m (take j msgs) = Inr (o1, m1)" and b: "outs = o1 @ o2"
    unfolding run_append by (auto split: sum.splits prod.splits)
  from run_length [OF a] have "length o1 = length (take j msgs)" .
  with b run_length [OF assms] have "take j outs = o1" by (simp add: min_def split: if_splits)
  with a show ?thesis by blast
qed

lemma filter_take_le: "length (filter P (take j xs)) \<le> length (filter P xs)"
proof -
  have "length (filter P xs) = length (filter P (take j xs @ drop j xs))" by simp
  also have "\<dots> = length (filter P (take j xs)) + length (filter P (drop j xs))"
    by (simp only: filter_append length_append)
  finally show ?thesis by simp
qed

lemma openShare_sigma:
  assumes "openShare q m i b = Inr s"
  shows "\<exists>v sig. Join q (map (\<lambda>opening. Shares opening ! b) (map snd (openings m i))) = Inr v \<and>
           muls m i = Some sig \<and> b < length (Mul_sigmas sig) \<and>
           s = share_sub q (share_new (share_index (Mul_sigmas sig ! b)) v) (Mul_sigmas sig ! b)"
  using assms
  by (auto simp: openShare_def Let_def dest!: fillSharesCache_Inr split: sum.splits option.splits if_splits)

lemma tryOpenMul_interpolated:
  assumes "tryOpenMul q m msg = Inr (ResultMessage r, m')"
  shows "\<forall>b < length (Result_Shares r).
        m_k m \<le> length (joined m msg b) \<and> distinct (map share_index (joined m msg b)) \<and>
        interpolated q m msg b (Result_Shares r ! b)"
proof -
  let ?m = "storeOpenMul m msg" and ?i = "OpenMul_id msg"
  from assms obtain shares where
    f: "ForAll (length (Shares msg)) (openShare q ?m ?i) = Inr shares"
    and r: "r = NewResult ?i shares"
    and k: "m_k m \<le> length (openings ?m ?i)"
    by (auto simp: tryOpenMul_def Let_def split: if_splits sum.splits)
  note F = ForAll_Inr [OF f]
  have "\<forall>b < length shares. m_k m \<le> length (joined m msg b) \<and>
          distinct (map share_index (joined m msg b)) \<and> interpolated q m msg b (shares ! b)"
  proof (intro allI impI)
    fix b assume "b < length shares"
    with F have "openShare q ?m ?i b = Inr (shares ! b)" by simp
    from openShare_sigma [OF this] obtain v sig where
      j: "Join q (joined m msg b) = Inr v" and g: "muls m ?i = Some sig" "b < length (Mul_sigmas sig)" and
      s: "shares ! b = share_sub q (share_new (share_index (Mul_sigmas sig ! b)) v) (Mul_sigmas sig ! b)"
      by (auto simp: joined_def)
    from Join_Inr_distinct [OF j] have "distinct (map share_index (joined m msg b))" by simp
    moreover have "m_k m \<le> length (joined m msg b)" using k by (simp add: joined_def)
    moreover have "interpolated q m msg b (shares ! b)"
      using j g s by (simp add: interpolated_def)
    ultimately show "m_k m \<le> length (joined m msg b) \<and>
          distinct (map share_index (joined m msg b)) \<and> interpolated q m msg b (shares ! b)"
      by blast
  qed
  with r show ?thesis by (simp add: NewResult_def)
qed

lemma tryOpenMul_after_result:
  assumes "tryOpenMul q m msg = Inr (ResultMessage r, m')"
  shows "tryOpenMul q m' msg = Inr (NilMessage, storeOpenMul m' msg)"
proof -
  from assms have "results m' (OpenMul_id msg) = Some r"
    by (cases rule: tryOpenMul_nil_or_result) simp_all
  then show ?thesis by (rule tryOpenMul_cached)
qed

text \<open>
  Claim C4. For every state and every \<^verbatim>\<open>OpenMul\<close> message, whatever share indices it
  carries: if \<^verbatim>\<open>tryOpenMul\<close> emits a result, every share of it was interpolated from
  at least \<open>k\<close> shares with pairwise distinct indices; a message whose \<^verbatim>\<open>From\<close> is
  already stored for the id does not change the number of stored openings, so it cannot
  complete a quorum that was missing; the stored opening of a sender is the last one
  received; storing a message twice is storing it once; and a message delivered again
  returns \<^verbatim>\<open>nil\<close>, leaving the state as the first delivery left it when that was \<^verbatim>\<open>nil\<close>
  too.
\<close>

theorem forged_duplicate_cannot_reach_quorum:
  "(tryOpenMul q m msg = Inr (ResultMessage r, m') \<longrightarrow>
      (\<forall>b < length (Result_Shares r).
         m_k m \<le> length (joined m msg b) \<and> distinct (map share_index (joined m msg b)) \<and>
         interpolated q m msg b (Result_Shares r ! b)) \<and>
      tryOpenMul q m' msg = Inr (NilMessage, storeOpenMul m' msg)) \<and>
   (From msg \<in> fst ` set (openings m (OpenMul_id msg)) \<longrightarrow>
      length (openings (storeOpenMul m msg) (OpenMul_id msg)) = length (openings m (OpenMul_id msg)) \<and>
      (length (openings m (OpenMul_id msg)) < m_k m \<longrightarrow>
         tryOpenMul q m msg = Inr (NilMessage, storeOpenMul m msg))) \<and>
   map_of (openings (storeOpenMul m msg) (OpenMul_id msg)) (From msg) = Some msg \<and>
   storeOpenMul (storeOpenMul m msg) msg = storeOpenMul m msg \<and>
   (tryOpenMul q m msg = Inr (NilMessage, m') \<longrightarrow> tryOpenMul q m' msg = Inr (NilMessage, m'))"
  using tryOpenMul_interpolated [of q m msg r m'] tryOpenMul_duplicate_below_quorum [of msg m q]
    tryOpenMul_idem [of q m msg m'] tryOpenMul_after_result [of q m msg r m']
  by (simp add: storeOpenMul_last_wins storeOpenMul_counted_once storeOpenMul_idem)

lemma ex_pending_result:
  "map_sum id fst (tryOpenMul 7 ex_pending ex_open2) = Inr (ResultMessage (NewResult [1] [share_new 1 3]))"
  by code_simp

theorem forged_duplicate_cannot_reach_quorum_witness:
  "(\<exists>m'. tryOpenMul 7 ex_pending ex_open2 = Inr (ResultMessage (NewResult [1] [share_new 1 3]), m')) \<and>
   2 \<le> length (joined ex_pending ex_open2 0) \<and>
   distinct (map share_index (joined ex_pending ex_open2 0)) \<and>
   From ex_forged \<in> fst ` set (openings ex_waiting (OpenMul_id ex_forged)) \<and>
   length (openings ex_waiting (OpenMul_id ex_forged)) < m_k ex_waiting \<and>
   tryOpenMul 7 ex_waiting ex_forged = Inr (NilMessage, storeOpenMul ex_waiting ex_forged) \<and>
   tryOpenMul 7 (storeOpenMul ex_waiting ex_forged) ex_forged
     = Inr (NilMessage, storeOpenMul ex_waiting ex_forged)"
proof -
  obtain m' where
    t: "tryOpenMul 7 ex_pending ex_open2 = Inr (ResultMessage (NewResult [1] [share_new 1 3]), m')"
    using ex_pending_result by (cases "tryOpenMul 7 ex_pending ex_open2") auto
  have k: "m_k ex_pending = 2" by (simp add: ex_pending_def newMultiplier_def)
  from forged_duplicate_cannot_reach_quorum [of 7 ex_pending ex_open2 "NewResult [1] [share_new 1 3]" m'] t k
  have a: "2 \<le> length (joined ex_pending ex_open2 0) \<and>
      distinct (map share_index (joined ex_pending ex_open2 0))"
    by (simp add: NewResult_def)
  have f: "From ex_forged \<in> fst ` set (openings ex_waiting (OpenMul_id ex_forged))"
    by (simp add: ex_forged_def ex_waiting_def openings_def)
  have l: "length (openings ex_waiting (OpenMul_id ex_forged)) < m_k ex_waiting"
    by (simp add: ex_forged_def ex_waiting_def openings_def newMultiplier_def)
  from forged_duplicate_cannot_reach_quorum [of 7 ex_waiting ex_forged ex_result "storeOpenMul ex_waiting ex_forged"] f l
  have b: "tryOpenMul 7 ex_waiting ex_forged = Inr (NilMessage, storeOpenMul ex_waiting ex_forged)"
    and c: "tryOpenMul 7 (storeOpenMul ex_waiting ex_forged) ex_forged
     = Inr (NilMessage, storeOpenMul ex_waiting ex_forged)"
    by simp_all
  from t a f l b c show ?thesis by blast
qed


subsection \<open>The order of the stored openings does not matter\<close>

text \<open>
  The source keeps the openings of one multiplication in a Go map and ranges
  over it, in an order the language leaves unspecified, to fill the share
  cache.  The embedding keeps them as an association list.  The lemmas below
  show that this choice is immaterial: the interpolated share, and every
  panic on the way to it, depend only on the multiset of the stored openings.
\<close>

lemma lagrange_coeff_perm:
  assumes "mset xs = mset ys"
  shows "lagrange_coeff q xs xi = lagrange_coeff q ys xi"
proof -
  let ?f = "\<lambda>xj. xj * fp_inv q (xj - xi) mod q" and ?P = "\<lambda>xj. xj \<noteq> xi"
  have "mset (map ?f (filter ?P xs)) = mset (map ?f (filter ?P ys))"
    using assms by simp
  then have "prod_mset (mset (map ?f (filter ?P xs))) = prod_mset (mset (map ?f (filter ?P ys)))"
    by (rule arg_cong)
  then show ?thesis
    by (simp only: lagrange_coeff_def prod_mset_prod_list)
qed

lemma lagrange0_perm:
  assumes "mset pts = mset pts'"
  shows "lagrange0 q pts = lagrange0 q pts'"
proof -
  have m: "mset (map fst pts) = mset (map fst pts')" using assms by simp
  let ?t = "\<lambda>(xi, yi). yi * lagrange_coeff q (map fst pts) xi mod q"
  have e: "(\<lambda>(xi, yi). yi * lagrange_coeff q (map fst pts') xi mod q) = ?t"
    using lagrange_coeff_perm [OF m, of q] by (simp add: fun_eq_iff)
  have "mset (map ?t pts) = mset (map ?t pts')" using assms by simp
  then have "sum_mset (mset (map ?t pts)) = sum_mset (mset (map ?t pts'))" by (rule arg_cong)
  then have "sum_list (map ?t pts) = sum_list (map ?t pts')"
    by (simp only: sum_mset_sum_list)
  then show ?thesis by (simp only: lagrange0_def e)
qed

lemma Join_perm:
  assumes "mset xs = mset ys"
  shows "Join q xs = Join q ys"
proof -
  have 1: "xs = [] \<longleftrightarrow> ys = []" using assms by (metis mset_zero_iff)
  have 2: "distinct (map f xs) \<longleftrightarrow> distinct (map f ys)" for f :: "share \<Rightarrow> 'b"
    using assms by (metis mset_eq_imp_distinct_iff mset_map)
  have 3: "lagrange0 q (map (share_point q) xs) = lagrange0 q (map (share_point q) ys)"
    using assms by (intro lagrange0_perm) simp
  show ?thesis unfolding Join_def by (simp only: 1 2 3)
qed

lemma fillSharesCache_general:
  "fillSharesCache n b ops cache =
     (if ops = [] then Inr cache
      else if length cache + length ops \<le> n \<and> (\<forall>opening\<in>set ops. b < length (Shares opening))
      then Inr (cache @ map (\<lambda>opening. Shares opening ! b) ops)
      else Inl IndexOutOfRange)"
proof (induction ops arbitrary: cache)
  case Nil
  show ?case by simp
next
  case (Cons a ops)
  show ?case
  proof (cases "ops = []")
    case True
    then show ?thesis by auto
  next
    case False
    then show ?thesis
      using Cons.IH [of "cache @ [Shares a ! b]"] by auto
  qed
qed

lemma fillSharesCache_perm:
  assumes "mset ops = mset ops'"
  shows "case (fillSharesCache n b ops [], fillSharesCache n b ops' []) of
           (Inl e, Inl e') \<Rightarrow> e = e'
         | (Inr c, Inr c') \<Rightarrow> mset c = mset c'
         | _ \<Rightarrow> False"
proof -
  have 1: "ops = [] \<longleftrightarrow> ops' = []" using assms by (metis mset_zero_iff)
  have 2: "length ops = length ops'" using assms by (metis size_mset)
  have 3: "set ops = set ops'" using assms by (metis set_mset_mset)
  have 4: "mset (map (\<lambda>opening. Shares opening ! b) ops) = mset (map (\<lambda>opening. Shares opening ! b) ops')"
    using assms by simp
  show ?thesis
    unfolding fillSharesCache_general using 1 2 3 4 by simp
qed

lemma openShare_perm:
  assumes "mset (openings m i) = mset (openings m' i)" "muls m i = muls m' i" "m_n m = m_n m'"
  shows "openShare q m i b = openShare q m' i b"
proof -
  have p: "mset (map snd (openings m i)) = mset (map snd (openings m' i))"
    using assms(1) by simp
  note F = fillSharesCache_perm [OF p, of "m_n m" b]
  show ?thesis
  proof (cases "fillSharesCache (m_n m) b (map snd (openings m i)) []")
    case (Inl e)
    with F assms(3) show ?thesis
      by (auto simp: openShare_def split: sum.splits)
  next
    case (Inr c)
    with F obtain c' where c': "fillSharesCache (m_n m) b (map snd (openings m' i)) [] = Inr c'"
      "mset c = mset c'"
      by (auto split: sum.splits)
    have "openShare q m' i b = openShare q m i b"
      unfolding openShare_def
      by (simp only: assms(2) [symmetric] assms(3) [symmetric] Inr c'(1)
            Join_perm [OF c'(2), of q, symmetric] sum.case)
    then show ?thesis by simp
  qed
qed


subsection \<open>The multiplier against the delivered messages\<close>

text \<open>
  The stored openings and the signal of a multiplier that holds no result are the ones
  read off the delivered messages, in some order; so \<^verbatim>\<open>tryOpenMul\<close> computes the shares
  of \<open>spec_share\<close>, and panics where there is none.
\<close>

lemma From_last_openings: "From ` set (last_openings ds) = From ` set ds"
  by (induction ds) auto

lemma set_last_openings: "set (last_openings ds) \<subseteq> set ds"
  by (induction ds) auto

lemma distinct_last_openings: "distinct (map From (last_openings ds))"
proof (induction ds)
  case Nil
  show ?case by simp
next
  case (Cons a ds)
  have "From a \<notin> From ` set ds \<Longrightarrow> From a \<notin> From ` set (last_openings ds)"
    by (simp add: From_last_openings)
  with Cons show ?case by auto
qed

lemma last_openings_snoc:
  "last_openings (ds @ [om]) = filter (\<lambda>x. From x \<noteq> From om) (last_openings ds) @ [om]"
  by (induction ds) auto

lemma last_in_last_openings: "ds \<noteq> [] \<Longrightarrow> last ds \<in> set (last_openings ds)"
  by (induction ds rule: rev_induct) (simp_all add: last_openings_snoc)

lemma delivered_snoc: "delivered q i idx (ms @ [x]) = delivered q i idx ms @ opening_of q i idx x"
  by (simp add: delivered_def)

lemma sender_of_opening_of: "sender_of i idx x = map From (opening_of q i idx x)"
  by (cases x) (simp_all add: own_opening_def)

lemma senders_delivered: "senders i idx ms = From ` set (delivered q i idx ms)"
  by (auto simp: senders_def delivered_def sender_of_opening_of [of i idx _ q])

lemma last_signal_snoc:
  "last_signal i (ms @ [x]) = (case signal_of i x of [] \<Rightarrow> last_signal i ms | s # ss \<Rightarrow> Some s)"
  by (cases x) (simp_all add: last_signal_def)

lemma signalled_last_signal: "signalled i ms \<longleftrightarrow> last_signal i ms \<noteq> None"
proof (induction ms rule: rev_induct)
  case Nil
  show ?case by (simp add: signalled_def last_signal_def)
next
  case (snoc x ms)
  then show ?case
    by (cases x) (auto simp: signalled_snoc last_signal_snoc is_mul_for_def)
qed

lemma mset_alist_update:
  "distinct (map fst al) \<Longrightarrow>
     mset (AList.update k v al) = filter_mset (\<lambda>p. fst p \<noteq> k) (mset al) + {#(k, v)#}"
proof (induction al)
  case Nil
  show ?case by simp
next
  case (Cons a al)
  obtain k' v' where a: "a = (k', v')" by (cases a)
  show ?case
  proof (cases "k' = k")
    case True
    with Cons.prems a have "k \<notin> fst ` set al" by auto
    then have "filter_mset (\<lambda>p. fst p \<noteq> k) (mset al) = mset al"
      by (auto simp: filter_mset_eq_conv)
    with True a show ?thesis by simp
  next
    case False
    with Cons a show ?thesis by simp
  qed
qed

lemma results_of_snoc: "results_of i (outs @ [out]) = results_of i outs @ filter (\<lambda>r. Result_id r = i) (results_in out)"
  by (simp add: results_of_def)

lemma result_count_results_of: "result_count i outs = length (results_of i outs)"
  by (simp add: result_count_def results_of_def)

lemma collect_those:
  assumes "\<forall>x\<in>set xs. (case f x of Inl e \<Rightarrow> g x = None | Inr s \<Rightarrow> g x = Some s)"
  shows "case collect (map f xs) of
           Inl e \<Rightarrow> those (map g xs) = None
         | Inr ss \<Rightarrow> those (map g xs) = Some ss"
  using assms
proof (induction xs)
  case Nil
  show ?case by simp
next
  case (Cons a xs)
  from Cons.prems have a: "case f a of Inl e \<Rightarrow> g a = None | Inr s \<Rightarrow> g a = Some s" by simp
  from Cons.prems have "\<forall>x\<in>set xs. (case f x of Inl e \<Rightarrow> g x = None | Inr s \<Rightarrow> g x = Some s)"
    by simp
  from Cons.IH [OF this] a show ?case
    by (auto split: sum.splits option.splits)
qed

lemma ForAll_those:
  assumes "\<And>b. b < batch \<Longrightarrow> (case f b of Inl e \<Rightarrow> g b = None | Inr s \<Rightarrow> g b = Some s)"
  shows "case ForAll batch f of
           Inl e \<Rightarrow> those (map g [0..<batch]) = None
         | Inr ss \<Rightarrow> those (map g [0..<batch]) = Some ss"
  unfolding ForAll_def using assms by (intro collect_those) simp

lemma openShare_spec_share:
  assumes sg: "muls m i = Some sig"
    and st: "mset (map snd (openings m i)) = mset st"
    and ne: "st \<noteq> []"
  shows "case openShare q m i b of
           Inl e \<Rightarrow> spec_share q (m_n m) sig st b = None
         | Inr s \<Rightarrow> spec_share q (m_n m) sig st b = Some s"
proof -
  let ?ops = "map snd (openings m i)"
  have len: "length ?ops = length st" using st by (metis size_mset)
  have set: "set ?ops = set st" using st by (metis set_mset_mset)
  have ne': "?ops \<noteq> []" using ne len by auto
  have sh: "mset (map (\<lambda>opening. Shares opening ! b) ?ops) = mset (map (\<lambda>opening. Shares opening ! b) st)"
    using st by (metis mset_map)
  note J = Join_perm [OF sh, of q]
  show ?thesis
  proof (cases "length st \<le> m_n m \<and> (\<forall>opening\<in>set st. b < length (Shares opening))")
    case False
    then have "fillSharesCache (m_n m) b ?ops [] = Inl IndexOutOfRange"
      using ne' len set by (simp add: fillSharesCache_general)
    moreover from False have "spec_share q (m_n m) sig st b = None"
      by (auto simp: spec_share_def)
    ultimately show ?thesis by (simp add: openShare_def)
  next
    case True
    then have f: "fillSharesCache (m_n m) b ?ops [] = Inr (map (\<lambda>opening. Shares opening ! b) ?ops)"
      using ne' len set by (simp add: fillSharesCache_general)
    from True have n: "\<not> (m_n m < length st \<or> (\<exists>opening\<in>set st. length (Shares opening) \<le> b))"
      by auto
    show ?thesis
      unfolding openShare_def f spec_share_def
      using n sg J by (auto simp: Let_def split: sum.splits)
  qed
qed

lemma stored_after_store:
  assumes i: "OpenMul_id om = i"
    and keys: "distinct (map fst (openings m i))"
    and st: "mset (openings m i) = mset (map (\<lambda>x. (From x, x)) st)"
  shows "distinct (map fst (openings (storeOpenMul m om) i))"
    and "mset (openings (storeOpenMul m om) i)
           = mset (map (\<lambda>x. (From x, x)) (filter (\<lambda>x. From x \<noteq> From om) st @ [om]))"
proof -
  have o: "openings (storeOpenMul m om) i = AList.update (From om) om (openings m i)"
    by (simp add: openings_storeOpenMul i)
  show "distinct (map fst (openings (storeOpenMul m om) i))"
    unfolding o using keys by (rule distinct_update)
  have "filter_mset (\<lambda>p. fst p \<noteq> From om) (mset (map (\<lambda>x. (From x, x)) st))
          = mset (map (\<lambda>x. (From x, x)) (filter (\<lambda>x. From x \<noteq> From om) st))"
    by (induction st) auto
  then show "mset (openings (storeOpenMul m om) i)
           = mset (map (\<lambda>x. (From x, x)) (filter (\<lambda>x. From x \<noteq> From om) st @ [om]))"
    unfolding o mset_alist_update [OF keys] st by simp
qed

lemma stored_length:
  assumes keys: "distinct (map fst al)"
    and st: "mset al = mset (map (\<lambda>x. (From x, x)) st)"
  shows "length al = card (From ` set st)" and "mset (map snd al) = mset st"
proof -
  have "mset (map fst al) = mset (map fst (map (\<lambda>x. (From x, x)) st))"
    using st by (metis mset_map)
  then have "set (map fst al) = set (map fst (map (\<lambda>x. (From x, x)) st))"
    by (metis set_mset_mset)
  then have "set (map fst al) = From ` set st" by (simp add: image_image)
  with finite_keys_card [OF keys] show "length al = card (From ` set st)" by simp
  have "mset (map snd al) = mset (map snd (map (\<lambda>x. (From x, x)) st))"
    using st by (metis mset_map)
  then show "mset (map snd al) = mset st" by (simp add: comp_def)
qed

lemma tryOpenMul_spec_nil:
  assumes i: "OpenMul_id om = i"
    and keys: "distinct (map fst (openings m i))"
    and st: "mset (openings m i) = mset (map (\<lambda>x. (From x, x)) st)"
    and nil: "card (insert (From om) (From ` set st)) < m_k m \<or> muls m i = None"
  shows "tryOpenMul q m om = Inr (NilMessage, storeOpenMul m om)"
proof -
  let ?st = "filter (\<lambda>x. From x \<noteq> From om) st @ [om]"
  note S = stored_after_store [OF i keys st]
  have "From ` set ?st = insert (From om) (From ` set st)" by auto
  with stored_length(1) [OF S] have "length (openings (storeOpenMul m om) i) = card (insert (From om) (From ` set st))"
    by simp
  with nil i show ?thesis
    by (auto simp: tryOpenMul_def Let_def)
qed

lemma tryOpenMul_spec_complete:
  assumes i: "OpenMul_id om = i"
    and fresh: "results m i = None"
    and keys: "distinct (map fst (openings m i))"
    and st: "mset (openings m i) = mset (map (\<lambda>x. (From x, x)) st)"
    and k: "m_k m \<le> card (insert (From om) (From ` set st))"
    and sg: "muls m i = Some sig"
  shows "case tryOpenMul q m om of
           Inl e \<Rightarrow>
             those (map (spec_share q (m_n m) sig (filter (\<lambda>x. From x \<noteq> From om) st @ [om]))
                      [0..<length (Shares om)]) = None
         | Inr (out, m') \<Rightarrow>
             (\<exists>shares.
                those (map (spec_share q (m_n m) sig (filter (\<lambda>x. From x \<noteq> From om) st @ [om]))
                         [0..<length (Shares om)]) = Some shares \<and>
                out = ResultMessage (NewResult i shares) \<and>
                m' = (storeOpenMul m om)
                       \<lparr>results := (results m)(i \<mapsto> NewResult i shares),
                        muls := (muls m)(i := None),
                        opens := (opens (storeOpenMul m om))(i := None)\<rparr>)"
proof -
  let ?st = "filter (\<lambda>x. From x \<noteq> From om) st @ [om]"
  let ?m = "storeOpenMul m om"
  note S = stored_after_store [OF i keys st]
  have "From ` set ?st = insert (From om) (From ` set st)" by auto
  with stored_length(1) [OF S] have len: "length (openings ?m i) = card (insert (From om) (From ` set st))"
    by simp
  have sg': "muls ?m i = Some sig" using sg by simp
  have ne: "?st \<noteq> []" by simp
  have mn: "m_n ?m = m_n m" by simp
  have "\<And>b. b < length (Shares om) \<Longrightarrow>
          (case openShare q ?m i b of
             Inl e \<Rightarrow> spec_share q (m_n m) sig ?st b = None
           | Inr s \<Rightarrow> spec_share q (m_n m) sig ?st b = Some s)"
    by (rule openShare_spec_share [OF sg' stored_length(2) [OF S] ne, of q, unfolded mn])
  from ForAll_those [where batch = "length (Shares om)" and f = "openShare q ?m i"
      and g = "spec_share q (m_n m) sig ?st", OF this]
  have F: "case ForAll (length (Shares om)) (openShare q ?m i) of
             Inl e \<Rightarrow> those (map (spec_share q (m_n m) sig ?st) [0..<length (Shares om)]) = None
           | Inr ss \<Rightarrow> those (map (spec_share q (m_n m) sig ?st) [0..<length (Shares om)]) = Some ss" .
  have t: "tryOpenMul q m om =
             (case ForAll (length (Shares om)) (openShare q ?m i) of
                Inl e \<Rightarrow> Inl e
              | Inr shares \<Rightarrow>
                  Inr (ResultMessage (NewResult i shares),
                       ?m\<lparr>results := (results ?m)(i \<mapsto> NewResult i shares),
                          muls := (muls ?m)(i := None),
                          opens := (opens ?m)(i := None)\<rparr>))"
    using len k sg fresh i by (simp add: tryOpenMul_def Let_def split: sum.splits)
  show ?thesis
    unfolding t using F by (auto split: sum.splits)
qed

lemma complete_snoc:
  "complete i idx k (ms @ [x]) \<longleftrightarrow>
     (last_signal i (ms @ [x]) \<noteq> None \<and>
      k \<le> card (From ` set (stored q i idx ms) \<union> From ` set (opening_of q i idx x)))"
  by (simp add: complete_def signalled_last_signal senders_delivered [of i idx _ q]
      delivered_snoc stored_def From_last_openings image_Un)

lemma complete_stored:
  "complete i idx k ms \<longleftrightarrow> (last_signal i ms \<noteq> None \<and> k \<le> card (From ` set (stored q i idx ms)))"
  by (simp add: complete_def signalled_last_signal senders_delivered [of i idx _ q]
      stored_def From_last_openings)

lemma stored_snoc:
  "opening_of q i idx x = [om] \<Longrightarrow>
     stored q i idx (ms @ [x]) = filter (\<lambda>y. From y \<noteq> From om) (stored q i idx ms) @ [om]"
  "opening_of q i idx x = [] \<Longrightarrow> stored q i idx (ms @ [x]) = stored q i idx ms"
  by (simp_all add: stored_def delivered_snoc last_openings_snoc)

lemma step_same:
  assumes t: "tryOpenMul q m1 om = Inr (out, m')"
    and i: "OpenMul_id om = i"
    and fresh: "results m1 i = None"
    and fields: "m_index m1 = idx" "m_n m1 = n" "m_k m1 = k"
    and rid: "\<forall>j r. results m1 j = Some r \<longrightarrow> Result_id r = j"
    and nc: "\<not> complete i idx k msgs"
    and r0: "results_of i outs = []"
    and sg: "muls m1 i = last_signal i (msgs @ [x])"
    and wf: "\<forall>s. muls m1 i = Some s \<longrightarrow> well_formed s"
    and keys: "distinct (map fst (openings m1 i))"
    and st: "mset (openings m1 i) = mset (map (\<lambda>y. (From y, y)) (stored q i idx msgs))"
    and op: "opening_of q i idx x = [om]"
    and ro: "filter (\<lambda>r. Result_id r = i) (results_in out') = filter (\<lambda>r. Result_id r = i) (results_in out)"
  shows "trace_inv q n idx k i (msgs @ [x]) (outs @ [out']) m'"
proof -
  let ?st = "stored q i idx msgs"
  let ?st' = "filter (\<lambda>y. From y \<noteq> From om) ?st @ [om]"
  have s': "stored q i idx (msgs @ [x]) = ?st'" using op by (rule stored_snoc)
  have c: "complete i idx k (msgs @ [x]) \<longleftrightarrow>
             muls m1 i \<noteq> None \<and> k \<le> card (insert (From om) (From ` set ?st))"
    by (simp add: complete_snoc [of i idx k msgs x q] op sg)
  note S = stored_after_store [OF i keys st]
  show ?thesis
  proof (cases "card (insert (From om) (From ` set ?st)) < m_k m1 \<or> muls m1 i = None")
    case True
    from tryOpenMul_spec_nil [OF i keys st True, of q] t
    have o: "out = NilMessage" and m': "m' = storeOpenMul m1 om" by simp_all
    from True c fields have nc': "\<not> complete i idx k (msgs @ [x])" by auto
    have "results m' i = None" using fresh by (simp add: m')
    moreover have "results_of i (outs @ [out']) = []"
      using r0 ro o by (simp add: results_of_snoc)
    ultimately show ?thesis
      using nc' fields rid sg wf S s' by (simp add: trace_inv_def m')
  next
    case False
    then obtain sig where sig: "muls m1 i = Some sig"
      and k: "m_k m1 \<le> card (insert (From om) (From ` set ?st))"
      by auto
    from tryOpenMul_spec_complete [OF i fresh keys st k sig, of q] t obtain shares where
      th: "those (map (spec_share q (m_n m1) sig ?st') [0..<length (Shares om)]) = Some shares"
      and o: "out = ResultMessage (NewResult i shares)"
      and m': "m' = (storeOpenMul m1 om)
                       \<lparr>results := (results m1)(i \<mapsto> NewResult i shares),
                        muls := (muls m1)(i := None),
                        opens := (opens (storeOpenMul m1 om))(i := None)\<rparr>"
      by auto
    from sig k c fields have c': "complete i idx k (msgs @ [x])" by simp
    have sr: "spec_result q n idx i (msgs @ [x]) = Some (NewResult i shares)"
      using sig sg wf th fields by (simp add: spec_result_def delivered_snoc op s')
    have ro': "results_of i (outs @ [out']) = [NewResult i shares]"
      using r0 ro o by (simp add: results_of_snoc NewResult_def)
    have res: "results m' i = Some (NewResult i shares)" by (simp add: m')
    have rid': "\<forall>j r. results m' j = Some r \<longrightarrow> Result_id r = j"
      using rid by (simp add: m' NewResult_def)
    have f': "m_index m' = idx" "m_n m' = n" "m_k m' = k" using fields by (simp_all add: m')
    have "\<exists>j<length (msgs @ [x]).
             \<not> complete i idx k (take j (msgs @ [x])) \<and> complete i idx k (take (Suc j) (msgs @ [x])) \<and>
             spec_result q n idx i (take (Suc j) (msgs @ [x])) = Some (NewResult i shares) \<and>
             results_of i (outs @ [out'])
               = replicate (Suc (length (filter (is_mul_for i) (drop (Suc j) (msgs @ [x]))))) (NewResult i shares)"
      using nc c' sr ro' by (intro exI [of _ "length msgs"]) simp
    with res rid' f' show ?thesis
      unfolding trace_inv_def by simp
  qed
qed

lemma take_snoc_le: "j \<le> length ms \<Longrightarrow> take j (ms @ [x]) = take j ms"
  by simp

lemma trace_inv_frame:
  assumes inv: "trace_inv q n idx k i msgs outs m"
    and same: "results m' i = results m i" "muls m' i = muls m i" "openings m' i = openings m i"
      "m_index m' = m_index m" "m_n m' = m_n m" "m_k m' = m_k m"
    and rid: "\<forall>j r. results m' j = Some r \<longrightarrow> Result_id r = j"
    and x: "opening_of q i idx x = []" "signal_of i x = []" "\<not> is_mul_for i x"
    and out: "filter (\<lambda>r. Result_id r = i) (results_in out) = []"
  shows "trace_inv q n idx k i (msgs @ [x]) (outs @ [out]) m'"
proof -
  have ls: "last_signal i (msgs @ [x]) = last_signal i msgs"
    using x(2) by (simp add: last_signal_snoc)
  have st: "stored q i idx (msgs @ [x]) = stored q i idx msgs"
    using x(1) by (rule stored_snoc)
  have c: "complete i idx k (msgs @ [x]) \<longleftrightarrow> complete i idx k msgs"
    by (simp add: complete_snoc [of i idx k msgs x q] complete_stored [of i idx k msgs q] ls x(1))
  have ro: "results_of i (outs @ [out]) = results_of i outs"
    using out by (simp add: results_of_snoc)
  show ?thesis
  proof (cases "results m i")
    case None
    with inv same rid ls st c ro show ?thesis
      by (simp add: trace_inv_def)
  next
    case (Some r)
    with inv obtain j where j: "j < length msgs"
      "\<not> complete i idx k (take j msgs)" "complete i idx k (take (Suc j) msgs)"
      "spec_result q n idx i (take (Suc j) msgs) = Some r"
      "results_of i outs = replicate (Suc (length (filter (is_mul_for i) (drop (Suc j) msgs)))) r"
      by (auto simp: trace_inv_def)
    have "j < length (msgs @ [x]) \<and>
          \<not> complete i idx k (take j (msgs @ [x])) \<and> complete i idx k (take (Suc j) (msgs @ [x])) \<and>
          spec_result q n idx i (take (Suc j) (msgs @ [x])) = Some r \<and>
          results_of i (outs @ [out])
            = replicate (Suc (length (filter (is_mul_for i) (drop (Suc j) (msgs @ [x]))))) r"
      using j x(3) ro by simp
    then have "\<exists>j<length (msgs @ [x]).
          \<not> complete i idx k (take j (msgs @ [x])) \<and> complete i idx k (take (Suc j) (msgs @ [x])) \<and>
          spec_result q n idx i (take (Suc j) (msgs @ [x])) = Some r \<and>
          results_of i (outs @ [out])
            = replicate (Suc (length (filter (is_mul_for i) (drop (Suc j) (msgs @ [x]))))) r"
      by blast
    with inv same rid Some show ?thesis
      unfolding trace_inv_def by simp
  qed
qed

lemma trace_inv_cached:
  assumes inv: "trace_inv q n idx k i msgs outs m"
    and r: "results m i = Some r"
    and same: "results m' = results m" "m_index m' = m_index m" "m_n m' = m_n m" "m_k m' = m_k m"
    and out: "filter (\<lambda>r. Result_id r = i) (results_in out) = (if is_mul_for i x then [r] else [])"
  shows "trace_inv q n idx k i (msgs @ [x]) (outs @ [out]) m'"
proof -
  from inv r obtain j where j: "j < length msgs"
    "\<not> complete i idx k (take j msgs)" "complete i idx k (take (Suc j) msgs)"
    "spec_result q n idx i (take (Suc j) msgs) = Some r"
    "results_of i outs = replicate (Suc (length (filter (is_mul_for i) (drop (Suc j) msgs)))) r"
    by (auto simp: trace_inv_def)
  have "results_of i (outs @ [out])
          = replicate (Suc (length (filter (is_mul_for i) (drop (Suc j) (msgs @ [x]))))) r"
    using j(1,5) out by (simp add: results_of_snoc replicate_append_same)
  with j have "j < length (msgs @ [x]) \<and>
        \<not> complete i idx k (take j (msgs @ [x])) \<and> complete i idx k (take (Suc j) (msgs @ [x])) \<and>
        spec_result q n idx i (take (Suc j) (msgs @ [x])) = Some r \<and>
        results_of i (outs @ [out])
          = replicate (Suc (length (filter (is_mul_for i) (drop (Suc j) (msgs @ [x]))))) r"
    by simp
  then have "\<exists>j<length (msgs @ [x]).
        \<not> complete i idx k (take j (msgs @ [x])) \<and> complete i idx k (take (Suc j) (msgs @ [x])) \<and>
        spec_result q n idx i (take (Suc j) (msgs @ [x])) = Some r \<and>
        results_of i (outs @ [out])
          = replicate (Suc (length (filter (is_mul_for i) (drop (Suc j) (msgs @ [x]))))) r"
    by blast
  with inv r same show ?thesis
    unfolding trace_inv_def by simp
qed

lemma tryOpenMul_frame:
  assumes t: "tryOpenMul q m om = Inr (out, m')"
    and i: "OpenMul_id om \<noteq> i"
    and rid: "\<forall>j r. results m j = Some r \<longrightarrow> Result_id r = j"
  shows "results m' i = results m i" "muls m' i = muls m i" "openings m' i = openings m i"
    "m_index m' = m_index m" "m_n m' = m_n m" "m_k m' = m_k m"
    "\<forall>j r. results m' j = Some r \<longrightarrow> Result_id r = j"
    "filter (\<lambda>r. Result_id r = i) (results_in out) = []"
proof -
  have o: "openings (storeOpenMul m om) i = openings m i"
    using i by (simp add: openings_storeOpenMul)
  from t have "results m' i = results m i \<and> muls m' i = muls m i \<and> openings m' i = openings m i \<and>
    m_index m' = m_index m \<and> m_n m' = m_n m \<and> m_k m' = m_k m \<and>
    (\<forall>j r. results m' j = Some r \<longrightarrow> Result_id r = j) \<and>
    filter (\<lambda>r. Result_id r = i) (results_in out) = []"
  proof (cases rule: tryOpenMul_nil_or_result)
    case nil
    with o rid show ?thesis by simp
  next
    case (res shares)
    have "openings m' i = openings m i"
      using o i res(2) by (simp add: openings_def storeOpenMul_def)
    with res(1,2) i rid show ?thesis
      by (simp add: NewResult_def)
  qed
  then show "results m' i = results m i" "muls m' i = muls m i" "openings m' i = openings m i"
    "m_index m' = m_index m" "m_n m' = m_n m" "m_k m' = m_k m"
    "\<forall>j r. results m' j = Some r \<longrightarrow> Result_id r = j"
    "filter (\<lambda>r. Result_id r = i) (results_in out) = []"
    by blast+
qed

lemma mul_own_opening:
  assumes "ForAll (length (Mul_xs s)) (mulShare q s) = Inr shares"
  shows "NewOpenMul (Mul_id s) idx shares = own_opening q idx s" and "well_formed s"
proof -
  note F = ForAll_Inr [OF assms]
  have b: "b < length (Mul_ys s) \<and> b < length (Mul_rhos s) \<and>
             shares ! b = share_add q (share_mul q (Mul_xs s ! b) (Mul_ys s ! b)) (Mul_rhos s ! b)"
    if "b < length (Mul_xs s)" for b
    using F(2) [OF that] by (auto simp: mulShare_def split: if_splits)
  have "shares = map (\<lambda>b. share_add q (share_mul q (Mul_xs s ! b) (Mul_ys s ! b)) (Mul_rhos s ! b))
                   [0..<length (Mul_xs s)]"
    using F(1) b by (intro nth_equalityI) simp_all
  then show "NewOpenMul (Mul_id s) idx shares = own_opening q idx s"
    by (simp add: own_opening_def)
  have "length (Mul_xs s) \<le> length (Mul_ys s)"
  proof (rule ccontr)
    assume "\<not> length (Mul_xs s) \<le> length (Mul_ys s)"
    then have "length (Mul_ys s) < length (Mul_xs s)" by simp
    from b [OF this] show False by simp
  qed
  moreover have "length (Mul_xs s) \<le> length (Mul_rhos s)"
  proof (rule ccontr)
    assume "\<not> length (Mul_xs s) \<le> length (Mul_rhos s)"
    then have "length (Mul_rhos s) < length (Mul_xs s)" by simp
    from b [OF this] show False by simp
  qed
  ultimately show "well_formed s" by (simp add: well_formed_def)
qed

lemma trace_inv_Reduce:
  assumes inv: "trace_inv q n idx k i msgs outs m"
    and step: "Reduce q m x = Inr (out, m')"
  shows "trace_inv q n idx k i (msgs @ [x]) (outs @ [out]) m'"
proof (cases x)
  case (OpenMulMessage om)
  with step have t: "tryOpenMul q m om = Inr (out, m')" by (simp add: Reduce_def)
  from inv have rid: "\<forall>j r. results m j = Some r \<longrightarrow> Result_id r = j"
    and fields: "m_index m = idx" "m_n m = n" "m_k m = k"
    by (simp_all add: trace_inv_def)
  show ?thesis
  proof (cases "OpenMul_id om = i")
    case False
    note F = tryOpenMul_frame [OF t False rid]
    from False have "opening_of q i idx x = []" "signal_of i x = []" "\<not> is_mul_for i x"
      by (simp_all add: OpenMulMessage is_mul_for_def)
    from trace_inv_frame [OF inv F(1-7) this F(8)] show ?thesis .
  next
    case True
    show ?thesis
    proof (cases "results m i")
      case (Some r)
      with True have "tryOpenMul q m om = Inr (NilMessage, storeOpenMul m om)"
        by (simp add: tryOpenMul_cached)
      with t have o: "out = NilMessage" and m': "m' = storeOpenMul m om" by simp_all
      have "filter (\<lambda>r. Result_id r = i) (results_in out) = (if is_mul_for i x then [r] else [])"
        by (simp add: o OpenMulMessage is_mul_for_def)
      from trace_inv_cached [OF inv Some _ _ _ _ this, of m'] show ?thesis
        by (simp add: m')
    next
      case None
      with inv have f: "\<not> complete i idx k msgs" "results_of i outs = []"
        "muls m i = last_signal i msgs" "\<forall>s. muls m i = Some s \<longrightarrow> well_formed s"
        "distinct (map fst (openings m i))"
        "mset (openings m i) = mset (map (\<lambda>y. (From y, y)) (stored q i idx msgs))"
        by (simp_all add: trace_inv_def)
      have sg: "muls m i = last_signal i (msgs @ [x])"
        using f(3) by (simp add: last_signal_snoc OpenMulMessage)
      have op: "opening_of q i idx x = [om]" using True by (simp add: OpenMulMessage)
      from step_same [OF t True None fields rid f(1,2) sg f(4,5,6) op refl] show ?thesis .
    qed
  qed
next
  case (MulMessage s)
  with step have t: "mul q m s = Inr (out, m')" by (simp add: Reduce_def)
  from inv have rid: "\<forall>j r. results m j = Some r \<longrightarrow> Result_id r = j"
    and fields: "m_index m = idx" "m_n m = n" "m_k m = k"
    by (simp_all add: trace_inv_def)
  show ?thesis
  proof (cases "results m (Mul_id s)")
    case (Some r)
    with t have o: "out = ResultMessage r" and m': "m' = m" by (simp_all add: mul_def)
    from rid Some have ri: "Result_id r = Mul_id s" by simp
    show ?thesis
    proof (cases "Mul_id s = i")
      case True
      have "filter (\<lambda>r. Result_id r = i) (results_in out) = (if is_mul_for i x then [r] else [])"
        using True ri by (simp add: o MulMessage is_mul_for_def)
      from trace_inv_cached [OF inv _ _ _ _ _ this, of m'] Some True show ?thesis
        by (simp add: m')
    next
      case False
      then have x: "opening_of q i idx x = []" "signal_of i x = []" "\<not> is_mul_for i x"
        by (simp_all add: MulMessage is_mul_for_def)
      have "filter (\<lambda>r. Result_id r = i) (results_in out) = []"
        using False ri by (simp add: o)
      from trace_inv_frame [OF inv _ _ _ _ _ _ _ x this, of m'] rid show ?thesis
        by (simp add: m')
    qed
  next
    case None
    let ?m1 = "m\<lparr>muls := (muls m)(Mul_id s \<mapsto> s)\<rparr>"
    from t None obtain shares out0 where
      fa: "ForAll (length (Mul_xs s)) (mulShare q s) = Inr shares"
      and t0: "tryOpenMul q ?m1 (NewOpenMul (Mul_id s) (m_index m) shares) = Inr (out0, m')"
      and o: "out = MessageBatch [out0, OpenMulMessage (NewOpenMul (Mul_id s) (m_index m) shares)]"
      by (auto simp: mul_def Let_def split: sum.splits)
    note own = mul_own_opening(1) [OF fa, of idx] mul_own_opening(2) [OF fa]
    let ?om = "own_opening q idx s"
    from t0 own(1) fields have t1: "tryOpenMul q ?m1 ?om = Inr (out0, m')" by simp
    have oid: "OpenMul_id ?om = Mul_id s" by (simp add: own_opening_def)
    have ro: "filter (\<lambda>r. Result_id r = i) (results_in out) = filter (\<lambda>r. Result_id r = i) (results_in out0)"
      by (simp add: o)
    have rid1: "\<forall>j r. results ?m1 j = Some r \<longrightarrow> Result_id r = j" using rid by simp
    show ?thesis
    proof (cases "Mul_id s = i")
      case True
      with None have fresh: "results ?m1 i = None" by simp
      from inv None True have f: "\<not> complete i idx k msgs" "results_of i outs = []"
        "distinct (map fst (openings m i))"
        "mset (openings m i) = mset (map (\<lambda>y. (From y, y)) (stored q i idx msgs))"
        by (simp_all add: trace_inv_def)
      have f1: "m_index ?m1 = idx" "m_n ?m1 = n" "m_k ?m1 = k" using fields by simp_all
      have sg: "muls ?m1 i = last_signal i (msgs @ [x])"
        using True by (simp add: last_signal_snoc MulMessage)
      have wf: "\<forall>s'. muls ?m1 i = Some s' \<longrightarrow> well_formed s'"
        using True own(2) by simp
      have k1: "distinct (map fst (openings ?m1 i))" using f(3) by simp
      have s1: "mset (openings ?m1 i) = mset (map (\<lambda>y. (From y, y)) (stored q i idx msgs))"
        using f(4) by simp
      have op: "opening_of q i idx x = [?om]" using True by (simp add: MulMessage)
      have oi: "OpenMul_id ?om = i" using oid True by simp
      from step_same [OF t1 oi fresh f1 rid1 f(1,2) sg wf k1 s1 op ro] show ?thesis .
    next
      case False
      then have oi: "OpenMul_id ?om \<noteq> i" using oid by simp
      note F = tryOpenMul_frame [OF t1 oi rid1]
      from False have x: "opening_of q i idx x = []" "signal_of i x = []" "\<not> is_mul_for i x"
        by (simp_all add: MulMessage is_mul_for_def)
      have "results m' i = results m i" "muls m' i = muls m i" "openings m' i = openings m i"
        "m_index m' = m_index m" "m_n m' = m_n m" "m_k m' = m_k m"
        using F(1-6) False by simp_all
      from trace_inv_frame [OF inv this F(7) x] ro F(8) show ?thesis by simp
    qed
  qed
qed (use step in \<open>simp_all add: Reduce_def\<close>)

lemma trace_inv_init: "trace_inv q n idx k i [] [] (newMultiplier idx n k)"
  by (simp add: trace_inv_def newMultiplier_def complete_def signalled_def results_of_def
      last_signal_def openings_def stored_def delivered_def)

lemma trace_inv_run:
  "run q (newMultiplier idx n k) msgs = Inr (outs, m) \<Longrightarrow> trace_inv q n idx k i msgs outs m"
proof (induction msgs arbitrary: outs m rule: rev_induct)
  case Nil
  then show ?case using trace_inv_init [of q n idx k i] by simp
next
  case (snoc x ms)
  from snoc.prems obtain outs0 m1 out where
    r: "run q (newMultiplier idx n k) ms = Inr (outs0, m1)" and
    s: "Reduce q m1 x = Inr (out, m)" and o: "outs = outs0 @ [out]"
    by (rule run_snoc)
  from trace_inv_Reduce [OF snoc.IH [OF r] s] o show ?case by simp
qed

lemma complete_append:
  assumes "complete i idx k ms"
  shows "complete i idx k (ms @ ns)"
proof -
  have "senders i idx ms \<subseteq> senders i idx (ms @ ns)" by (auto simp: senders_def)
  then have "card (senders i idx ms) \<le> card (senders i idx (ms @ ns))"
    by (intro card_mono) simp_all
  with assms show ?thesis by (auto simp: complete_def signalled_def)
qed

lemma complete_take_mono:
  assumes "complete i idx k (take a ms)" and "a \<le> b"
  shows "complete i idx k (take b ms)"
proof -
  have "take b ms = take a ms @ take (b - a) (drop a ms)"
    using assms(2) by (metis le_add_diff_inverse take_add)
  with complete_append [OF assms(1)] show ?thesis by simp
qed

lemma completing_unique:
  assumes "\<not> complete i idx k (take a ms)" "complete i idx k (take (Suc a) ms)"
    and "\<not> complete i idx k (take b ms)" "complete i idx k (take (Suc b) ms)"
  shows "a = b"
proof (rule ccontr)
  assume "a \<noteq> b"
  then consider "Suc a \<le> b" | "Suc b \<le> a" by linarith
  then show False
  proof cases
    case 1
    from complete_take_mono [OF assms(2) 1] assms(3) show False by simp
  next
    case 2
    from complete_take_mono [OF assms(4) 2] assms(1) show False by simp
  qed
qed

lemma complete_frame:
  assumes "opening_of q i idx x = []" "signal_of i x = []"
  shows "complete i idx k (msgs @ [x]) \<longleftrightarrow> complete i idx k msgs"
  using assms
  by (simp add: complete_snoc [of i idx k msgs x q] complete_stored [of i idx k msgs q]
      last_signal_snoc)

lemma trace_inv_complete:
  assumes "trace_inv q n idx k i msgs outs m"
  shows "results m i \<noteq> None \<longleftrightarrow> complete i idx k msgs"
proof (cases "results m i")
  case None
  with assms show ?thesis by (simp add: trace_inv_def)
next
  case (Some r)
  with assms obtain j where j: "j < length msgs" "complete i idx k (take (Suc j) msgs)"
    by (auto simp: trace_inv_def)
  from complete_take_mono [OF j(2), of "length msgs"] j(1) have "complete i idx k msgs" by simp
  with Some show ?thesis by simp
qed

lemma collect_total:
  "\<forall>x\<in>set xs. \<exists>v. f x = Inr v \<Longrightarrow> \<exists>vs. collect (map f xs) = Inr vs"
  by (induction xs) auto

lemma well_formed_mulShare:
  assumes "well_formed s"
  shows "\<exists>shares. ForAll (length (Mul_xs s)) (mulShare q s) = Inr shares"
  unfolding ForAll_def
  using assms by (intro collect_total) (auto simp: mulShare_def well_formed_def)

lemma completing_step_panics:
  assumes inv: "trace_inv q n idx k i msgs outs m"
    and nc: "\<not> complete i idx k msgs"
    and c: "complete i idx k (msgs @ [x])"
    and step: "Reduce q m x = Inl e"
  shows "spec_result q n idx i (msgs @ [x]) = None"
proof -
  from trace_inv_complete [OF inv] nc have fresh: "results m i = None" by simp
  with inv have f: "muls m i = last_signal i msgs"
    "distinct (map fst (openings m i))"
    "mset (openings m i) = mset (map (\<lambda>y. (From y, y)) (stored q i idx msgs))"
    and fields: "m_index m = idx" "m_n m = n" "m_k m = k"
    by (simp_all add: trace_inv_def)
  let ?st = "stored q i idx msgs"
  have core: "spec_result q n idx i (msgs @ [x]) = None"
    if t: "tryOpenMul q m1 om = Inl e"
      and i: "OpenMul_id om = i"
      and m1: "results m1 i = None" "m_n m1 = n" "m_k m1 = k" "openings m1 i = openings m i"
        "muls m1 i = last_signal i (msgs @ [x])"
      and op: "opening_of q i idx x = [om]"
    for m1 om
  proof -
    have keys: "distinct (map fst (openings m1 i))" using f(2) m1(4) by simp
    have st: "mset (openings m1 i) = mset (map (\<lambda>y. (From y, y)) ?st)" using f(3) m1(4) by simp
    from c obtain sig where sig: "last_signal i (msgs @ [x]) = Some sig"
      and k: "k \<le> card (insert (From om) (From ` set ?st))"
      by (auto simp: complete_snoc [of i idx k msgs x q] op)
    from sig m1(5) have sg: "muls m1 i = Some sig" by simp
    from k m1(3) have k': "m_k m1 \<le> card (insert (From om) (From ` set ?st))" by simp
    from tryOpenMul_spec_complete [OF i m1(1) keys st k' sg, of q] t m1(2)
    have "those (map (spec_share q n sig (filter (\<lambda>y. From y \<noteq> From om) ?st @ [om]))
                   [0..<length (Shares om)]) = None"
      by simp
    then show ?thesis
      using sig by (simp add: spec_result_def delivered_snoc op stored_snoc(1) [OF op])
  qed
  show ?thesis
  proof (cases x)
    case (OpenMulMessage om)
    with step have t: "tryOpenMul q m om = Inl e" by (simp add: Reduce_def)
    show ?thesis
    proof (cases "OpenMul_id om = i")
      case True
      have "muls m i = last_signal i (msgs @ [x])"
        using f(1) by (simp add: last_signal_snoc OpenMulMessage)
      moreover have "opening_of q i idx x = [om]" using True by (simp add: OpenMulMessage)
      ultimately show ?thesis using core [OF t True fresh fields(2,3) refl] by simp
    next
      case False
      then have "complete i idx k (msgs @ [x]) \<longleftrightarrow> complete i idx k msgs"
        by (intro complete_frame [of q]) (simp_all add: OpenMulMessage)
      with nc c show ?thesis by simp
    qed
  next
    case (MulMessage s)
    with step have t: "mul q m s = Inl e" by (simp add: Reduce_def)
    show ?thesis
    proof (cases "Mul_id s = i")
      case True
      have ls: "last_signal i (msgs @ [x]) = Some s"
        using True by (simp add: last_signal_snoc MulMessage)
      show ?thesis
      proof (cases "well_formed s")
        case False
        with ls show ?thesis
          by (simp add: spec_result_def split: list.splits)
      next
        case wf: True
        from well_formed_mulShare [OF wf, of q] obtain shares where
          fa: "ForAll (length (Mul_xs s)) (mulShare q s) = Inr shares" by blast
        let ?m1 = "m\<lparr>muls := (muls m)(Mul_id s \<mapsto> s)\<rparr>"
        let ?om = "own_opening q idx s"
        from t fresh True fa have "tryOpenMul q ?m1 (NewOpenMul (Mul_id s) (m_index m) shares) = Inl e"
          by (auto simp: mul_def Let_def split: sum.splits)
        with mul_own_opening(1) [OF fa, of idx] fields(1)
        have t1: "tryOpenMul q ?m1 ?om = Inl e" by simp
        have oi: "OpenMul_id ?om = i" using True by (simp add: own_opening_def)
        have "results ?m1 i = None" "m_n ?m1 = n" "m_k ?m1 = k" "openings ?m1 i = openings m i"
          "muls ?m1 i = last_signal i (msgs @ [x])" "opening_of q i idx x = [?om]"
          using fresh fields True ls by (simp_all add: MulMessage)
        from core [OF t1 oi this] show ?thesis .
      qed
    next
      case False
      then have "complete i idx k (msgs @ [x]) \<longleftrightarrow> complete i idx k msgs"
        by (intro complete_frame [of q]) (simp_all add: MulMessage)
      with nc c show ?thesis by simp
    qed
  qed (use nc c complete_frame [of q i idx x k msgs] in \<open>simp_all\<close>)
qed

lemma those_Some:
  "those (map g xs) = Some ys \<Longrightarrow> length ys = length xs \<and> (\<forall>j<length xs. g (xs ! j) = Some (ys ! j))"
proof (induction xs arbitrary: ys)
  case Nil
  then show ?case by simp
next
  case (Cons a xs)
  from Cons.prems obtain y ys' where y: "g a = Some y" "those (map g xs) = Some ys'" "ys = y # ys'"
    by (auto split: option.splits)
  from Cons.IH [OF y(2)] y(1,3) show ?case
    by (auto simp: nth_Cons split: nat.splits)
qed

lemma spec_share_perm:
  assumes "mset st = mset st'"
  shows "spec_share q n sig st b = spec_share q n sig st' b"
proof -
  have l: "length st = length st'" using assms by (metis size_mset)
  have s: "set st = set st'" using assms by (metis set_mset_mset)
  have "mset (map (\<lambda>opening. Shares opening ! b) st) = mset (map (\<lambda>opening. Shares opening ! b) st')"
    using assms by (metis mset_map)
  from Join_perm [OF this, of q] l s show ?thesis
    by (simp add: spec_share_def)
qed

lemma spec_share_Some_length:
  "spec_share q n sig st b = Some s \<Longrightarrow> opening \<in> set st \<Longrightarrow> b < length (Shares opening)"
  by (auto simp: spec_share_def split: if_splits)

lemma spec_result_Some:
  assumes "spec_result q n idx i ms = Some r"
  obtains sig shares where "last_signal i ms = Some sig" "delivered q i idx ms \<noteq> []"
    "those (map (spec_share q n sig (stored q i idx ms))
          [0..<length (Shares (last (delivered q i idx ms)))]) = Some shares"
    "r = NewResult i shares"
proof -
  from assms obtain sig trigger earlier shares where
    a: "last_signal i ms = Some sig" "rev (delivered q i idx ms) = trigger # earlier"
    "those (map (spec_share q n sig (stored q i idx ms)) [0..<length (Shares trigger)]) = Some shares"
    "r = NewResult i shares"
    by (auto simp: spec_result_def split: option.splits list.splits if_splits)
  from a(2) have "delivered q i idx ms = rev earlier @ [trigger]"
    by (metis rev.simps(2) rev_rev_ident)
  then have "delivered q i idx ms \<noteq> []" "last (delivered q i idx ms) = trigger" by simp_all
  with a that show ?thesis by simp
qed

lemma spec_result_batch_le:
  assumes a: "those (map (spec_share q n sig st) [0..<batch]) = Some shares"
    and t: "opening \<in> set st"
  shows "batch \<le> length (Shares opening)"
proof (rule ccontr)
  assume "\<not> batch \<le> length (Shares opening)"
  then have b: "length (Shares opening) < batch" by simp
  with those_Some [OF a] have "spec_share q n sig st (length (Shares opening)) = Some (shares ! length (Shares opening))"
    by simp
  from spec_share_Some_length [OF this t] show False by simp
qed

lemma spec_result_order:
  assumes a: "spec_result q n idx i ms = Some r"
    and b: "spec_result q n idx i ms' = Some r'"
    and sg: "last_signal i ms = last_signal i ms'"
    and st: "set (stored q i idx ms) = set (stored q i idx ms')"
  shows "r = r'"
proof -
  let ?st = "stored q i idx ms" and ?st' = "stored q i idx ms'"
  let ?t = "last (delivered q i idx ms)" and ?t' = "last (delivered q i idx ms')"
  from a obtain sig shares where
    a': "last_signal i ms = Some sig" "delivered q i idx ms \<noteq> []"
    "those (map (spec_share q n sig ?st) [0..<length (Shares ?t)]) = Some shares"
    "r = NewResult i shares"
    by (rule spec_result_Some)
  from b obtain sig' shares' where
    b': "last_signal i ms' = Some sig'" "delivered q i idx ms' \<noteq> []"
    "those (map (spec_share q n sig' ?st') [0..<length (Shares ?t')]) = Some shares'"
    "r' = NewResult i shares'"
    by (rule spec_result_Some)
  from a'(1) b'(1) sg have sig: "sig' = sig" by simp
  have "distinct ?st" "distinct ?st'"
    using distinct_last_openings [of "delivered q i idx ms"]
      distinct_last_openings [of "delivered q i idx ms'"]
    by (simp_all add: stored_def distinct_map)
  with st have ms: "mset ?st = mset ?st'" by (simp add: set_eq_iff_mset_eq_distinct)
  note e = spec_share_perm [OF ms, of q n sig]
  have t: "?t \<in> set ?st" "?t' \<in> set ?st'"
    using a'(2) b'(2) by (simp_all add: stored_def last_in_last_openings)
  have "length (Shares ?t) \<le> length (Shares ?t')"
    using spec_result_batch_le [OF a'(3), of ?t'] t(2) st by simp
  moreover have "length (Shares ?t') \<le> length (Shares ?t)"
    using spec_result_batch_le [OF b'(3), of ?t] t(1) st by simp
  ultimately have l: "length (Shares ?t') = length (Shares ?t)" by simp
  have "spec_share q n sig ?st = spec_share q n sig ?st'" using e by (simp add: fun_eq_iff)
  with a'(3) b'(3) sig l have "Some shares = Some shares'" by simp
  then have "shares = shares'" by simp
  with a'(4) b'(4) show ?thesis by simp
qed

lemma run_results_none:
  assumes "run q (newMultiplier idx n k) msgs = Inr (outs, m)"
    and "\<not> complete i idx k msgs"
  shows "results_of i outs = []"
proof -
  note inv = trace_inv_run [OF assms(1), of i]
  from trace_inv_complete [OF inv] assms(2) have "results m i = None" by simp
  with inv show ?thesis by (simp add: trace_inv_def)
qed

lemma run_results_some:
  assumes "run q (newMultiplier idx n k) msgs = Inr (outs, m)"
    and "complete i idx k msgs"
  obtains j r where "j < length msgs"
    "\<not> complete i idx k (take j msgs)" "complete i idx k (take (Suc j) msgs)"
    "spec_result q n idx i (take (Suc j) msgs) = Some r"
    "results_of i outs = replicate (Suc (length (filter (is_mul_for i) (drop (Suc j) msgs)))) r"
proof -
  note inv = trace_inv_run [OF assms(1), of i]
  from trace_inv_complete [OF inv] assms(2) obtain r where "results m i = Some r" by auto
  with inv that show ?thesis by (auto simp: trace_inv_def)
qed

lemma completes_take:
  "j < length msgs \<Longrightarrow>
     completes i idx k (take (Suc j) msgs) \<longleftrightarrow>
       \<not> complete i idx k (take j msgs) \<and> complete i idx k (take (Suc j) msgs)"
  by (auto simp: completes_def butlast_take)

lemma completes_snoc:
  "completes i idx k (msgs @ [x]) \<longleftrightarrow> \<not> complete i idx k msgs \<and> complete i idx k (msgs @ [x])"
  by (simp add: completes_def)

lemma run_prefix_results:
  assumes r: "run q (newMultiplier idx n k) msgs = Inr (outs, m)"
    and j: "j < length msgs" "\<not> complete i idx k (take j msgs)" "complete i idx k (take (Suc j) msgs)"
    and sr: "spec_result q n idx i (take (Suc j) msgs) = Some r"
    and l: "j < l" "l \<le> length msgs"
  shows "results_of i (take l outs)
           = replicate (Suc (length (filter (is_mul_for i) (drop (Suc j) (take l msgs))))) r"
proof -
  from run_take [OF r, of l] obtain ml where
    rl: "run q (newMultiplier idx n k) (take l msgs) = Inr (take l outs, ml)" by blast
  have t: "take j (take l msgs) = take j msgs" "take (Suc j) (take l msgs) = take (Suc j) msgs"
    using l by (simp_all add: min_def)
  have "complete i idx k (take l msgs)"
    using complete_take_mono [OF j(3), of l] l by simp
  from run_results_some [OF rl this] obtain j' r' where
    j': "j' < length (take l msgs)"
    "\<not> complete i idx k (take j' (take l msgs))" "complete i idx k (take (Suc j') (take l msgs))"
    "spec_result q n idx i (take (Suc j') (take l msgs)) = Some r'"
    "results_of i (take l outs)
       = replicate (Suc (length (filter (is_mul_for i) (drop (Suc j') (take l msgs))))) r'"
    by blast
  have a1: "\<not> complete i idx k (take j (take l msgs))"
    unfolding t(1) by (rule j(2))
  have a2: "complete i idx k (take (Suc j) (take l msgs))"
    unfolding t(2) by (rule j(3))
  from completing_unique [OF a1 a2 j'(2,3)] have e: "j' = j" by simp
  with j'(4) sr t have "r' = r" by simp
  with j'(5) e show ?thesis by simp
qed

lemma completing_step:
  assumes r: "run q (newMultiplier idx n k) msgs = Inr (outs, m)"
    and c: "completes i idx k (msgs @ [x])"
  shows "case spec_result q n idx i (msgs @ [x]) of
           None \<Rightarrow> (\<exists>e. run q (newMultiplier idx n k) (msgs @ [x]) = Inl e)
         | Some r \<Rightarrow>
             (\<exists>out m'. run q (newMultiplier idx n k) (msgs @ [x]) = Inr (outs @ [out], m') \<and>
                filter (\<lambda>r. Result_id r = i) (results_in out) = [r])"
proof -
  from c have nc: "\<not> complete i idx k msgs" and co: "complete i idx k (msgs @ [x])"
    by (simp_all add: completes_snoc)
  note inv = trace_inv_run [OF r, of i]
  have r0: "results_of i outs = []" using r nc by (rule run_results_none)
  show ?thesis
  proof (cases "Reduce q m x")
    case (Inl e)
    from completing_step_panics [OF inv nc co Inl] have "spec_result q n idx i (msgs @ [x]) = None" .
    moreover have "run q (newMultiplier idx n k) (msgs @ [x]) = Inl e"
      using r Inl by (simp add: run_append)
    ultimately show ?thesis by simp
  next
    case (Inr p)
    obtain out m' where p: "p = (out, m')" by (cases p)
    have r': "run q (newMultiplier idx n k) (msgs @ [x]) = Inr (outs @ [out], m')"
      using r Inr p by (simp add: run_append)
    from run_results_some [OF r' co] obtain j r where
      j: "j < length (msgs @ [x])" "\<not> complete i idx k (take j (msgs @ [x]))"
      "complete i idx k (take (Suc j) (msgs @ [x]))"
      "spec_result q n idx i (take (Suc j) (msgs @ [x])) = Some r"
      "results_of i (outs @ [out])
         = replicate (Suc (length (filter (is_mul_for i) (drop (Suc j) (msgs @ [x]))))) r"
      by blast
    have "\<not> complete i idx k (take (length msgs) (msgs @ [x]))"
      "complete i idx k (take (Suc (length msgs)) (msgs @ [x]))"
      using nc co by simp_all
    from completing_unique [OF j(2,3) this] have e: "j = length msgs" .
    from j(4) e have "spec_result q n idx i (msgs @ [x]) = Some r" by simp
    moreover from j(5) e r0 have "filter (\<lambda>r. Result_id r = i) (results_in out) = [r]"
      by (simp add: results_of_snoc)
    ultimately show ?thesis using r' by simp
  qed
qed

lemma completes_results:
  assumes r: "run q (newMultiplier idx n k) msgs = Inr (outs, m)"
    and c: "completes i idx k msgs"
  shows "\<exists>r. spec_result q n idx i msgs = Some r \<and> results_of i outs = [r]"
proof -
  from c have ne: "msgs \<noteq> []" and nc: "\<not> complete i idx k (butlast msgs)"
    and co: "complete i idx k msgs"
    by (simp_all add: completes_def)
  from run_results_some [OF r co] obtain j r where
    j: "j < length msgs" "\<not> complete i idx k (take j msgs)" "complete i idx k (take (Suc j) msgs)"
    "spec_result q n idx i (take (Suc j) msgs) = Some r"
    "results_of i outs = replicate (Suc (length (filter (is_mul_for i) (drop (Suc j) msgs)))) r"
    by blast
  have "\<not> complete i idx k (take (length msgs - 1) msgs)"
    using nc by (simp add: butlast_conv_take)
  moreover have "complete i idx k (take (Suc (length msgs - 1)) msgs)"
    using co ne by simp
  ultimately have "j = length msgs - 1" using completing_unique [OF j(2,3)] by blast
  with j(4,5) ne have "spec_result q n idx i msgs = Some r" "results_of i outs = [r]"
    by simp_all
  then show ?thesis by blast
qed

lemma single_signal_count:
  assumes r: "run q (newMultiplier idx n k) msgs = Inr (outs, m)"
    and once: "length (filter (is_mul_for i) msgs) \<le> 1"
  shows "result_count i outs = (if complete i idx k msgs then 1 else 0)"
proof (cases "complete i idx k msgs")
  case False
  with run_results_none [OF r False] show ?thesis
    by (simp add: result_count_results_of)
next
  case True
  from run_results_some [OF r True] obtain j r where
    j: "j < length msgs" "complete i idx k (take (Suc j) msgs)"
    "results_of i outs = replicate (Suc (length (filter (is_mul_for i) (drop (Suc j) msgs)))) r"
    by blast
  from j(2) have "signalled i (take (Suc j) msgs)" by (simp add: complete_def)
  then have "1 \<le> length (filter (is_mul_for i) (take (Suc j) msgs))" by (rule signalled_filter)
  moreover have "length (filter (is_mul_for i) msgs)
      = length (filter (is_mul_for i) (take (Suc j) msgs)) + length (filter (is_mul_for i) (drop (Suc j) msgs))"
    by (metis append_take_drop_id filter_append length_append)
  ultimately have "length (filter (is_mul_for i) (drop (Suc j) msgs)) = 0"
    using once by linarith
  with j(3) True show ?thesis by (simp add: result_count_results_of)
qed

text \<open>
  Claim C1, as amended. A fresh multiplier has processed the messages \<open>msgs\<close> without a
  panic. The senders for the id \<open>i\<close> are the \<^verbatim>\<open>From\<close> of every \<^verbatim>\<open>OpenMul\<close> for \<open>i\<close> and,
  once a \<^verbatim>\<open>Mul\<close> for \<open>i\<close> was delivered, the multiplier itself, whose own opening goes
  through \<^verbatim>\<open>tryOpenMul\<close> like any other. Then:

  \<^item> after no prefix that lacks the signal or openings of \<open>k\<close> distinct senders has a
    \<^verbatim>\<open>Result\<close> for \<open>i\<close> been emitted;

  \<^item> once the conditions are complete, the message that completed them has made the
    multiplier emit the \<^verbatim>\<open>Result\<close> of \<open>spec_result\<close>: every share is joined from the
    shares that the stored openings (of every sender the last) have at its position,
    taken at the index of \<open>\<sigma>\<close> and less \<open>\<sigma>\<close>. After every longer prefix the results
    emitted for \<open>i\<close> are that one and one copy of it for every later \<^verbatim>\<open>Mul\<close> for \<open>i\<close>;

  \<^item> a next message that completes the conditions makes the multiplier panic exactly when
    \<open>spec_result\<close> has no result (the signal is not well formed, more than \<open>n\<close> openings
    are stored, an opening or \<^verbatim>\<open>\<sigma>s\<close> is shorter than the completing opening, or the
    shares at a position do not join), and emit exactly that result otherwise;

  \<^item> with at most one \<^verbatim>\<open>Mul\<close> for \<open>i\<close> among the messages, the number of results for \<open>i\<close>
    emitted after a prefix is 1 if the prefix is complete and 0 otherwise;

  \<^item> two lists of messages that the multiplier processes without a panic, that are both
    completed by their last message, with the same signal and the same stored openings,
    give the same single \<^verbatim>\<open>Result\<close>, whatever the order of arrival.
\<close>

theorem one_result_when_complete:
  assumes "run q (newMultiplier idx n k) msgs = Inr (outs, m)"
  shows
    "(\<forall>l \<le> length msgs. \<not> complete i idx k (take l msgs) \<longrightarrow> results_of i (take l outs) = []) \<and>
     (complete i idx k msgs \<longrightarrow>
        (\<exists>j r. j < length msgs \<and> completes i idx k (take (Suc j) msgs) \<and>
           spec_result q n idx i (take (Suc j) msgs) = Some r \<and>
           (\<forall>l. j < l \<and> l \<le> length msgs \<longrightarrow>
              results_of i (take l outs)
                = replicate (Suc (length (filter (is_mul_for i) (drop (Suc j) (take l msgs))))) r))) \<and>
     (\<forall>x. completes i idx k (msgs @ [x]) \<longrightarrow>
        (case spec_result q n idx i (msgs @ [x]) of
           None \<Rightarrow> (\<exists>e. run q (newMultiplier idx n k) (msgs @ [x]) = Inl e)
         | Some r \<Rightarrow>
             (\<exists>out m'. run q (newMultiplier idx n k) (msgs @ [x]) = Inr (outs @ [out], m') \<and>
                filter (\<lambda>r. Result_id r = i) (results_in out) = [r]))) \<and>
     (length (filter (is_mul_for i) msgs) \<le> 1 \<longrightarrow>
        (\<forall>l \<le> length msgs.
           result_count i (take l outs) = (if complete i idx k (take l msgs) then 1 else 0))) \<and>
     (\<forall>msgs' outs' m'.
        run q (newMultiplier idx n k) msgs' = Inr (outs', m') \<and>
        completes i idx k msgs \<and> completes i idx k msgs' \<and>
        last_signal i msgs = last_signal i msgs' \<and>
        set (stored q i idx msgs) = set (stored q i idx msgs') \<longrightarrow>
        results_of i outs = results_of i outs' \<and> length (results_of i outs) = 1)"
proof (intro conjI allI impI)
  fix l assume "l \<le> length msgs" and nc: "\<not> complete i idx k (take l msgs)"
  from run_take [OF assms, of l] obtain ml where
    "run q (newMultiplier idx n k) (take l msgs) = Inr (take l outs, ml)" by blast
  from run_results_none [OF this nc] show "results_of i (take l outs) = []" .
next
  assume "complete i idx k msgs"
  from run_results_some [OF assms this] obtain j r where
    j: "j < length msgs" "\<not> complete i idx k (take j msgs)" "complete i idx k (take (Suc j) msgs)"
    "spec_result q n idx i (take (Suc j) msgs) = Some r"
    by blast
  have "completes i idx k (take (Suc j) msgs)" using j(1,2,3) by (simp add: completes_take)
  moreover have "\<forall>l. j < l \<and> l \<le> length msgs \<longrightarrow>
      results_of i (take l outs)
        = replicate (Suc (length (filter (is_mul_for i) (drop (Suc j) (take l msgs))))) r"
    using run_prefix_results [OF assms j] by blast
  ultimately show "\<exists>j r. j < length msgs \<and> completes i idx k (take (Suc j) msgs) \<and>
           spec_result q n idx i (take (Suc j) msgs) = Some r \<and>
           (\<forall>l. j < l \<and> l \<le> length msgs \<longrightarrow>
              results_of i (take l outs)
                = replicate (Suc (length (filter (is_mul_for i) (drop (Suc j) (take l msgs))))) r)"
    using j(1,4) by blast
next
  fix x assume "completes i idx k (msgs @ [x])"
  with assms show "case spec_result q n idx i (msgs @ [x]) of
           None \<Rightarrow> (\<exists>e. run q (newMultiplier idx n k) (msgs @ [x]) = Inl e)
         | Some r \<Rightarrow>
             (\<exists>out m'. run q (newMultiplier idx n k) (msgs @ [x]) = Inr (outs @ [out], m') \<and>
                filter (\<lambda>r. Result_id r = i) (results_in out) = [r])"
    by (rule completing_step)
next
  fix l assume once: "length (filter (is_mul_for i) msgs) \<le> 1" and "l \<le> length msgs"
  from run_take [OF assms, of l] obtain ml where
    rl: "run q (newMultiplier idx n k) (take l msgs) = Inr (take l outs, ml)" by blast
  have "length (filter (is_mul_for i) (take l msgs)) \<le> 1"
    using filter_take_le [of "is_mul_for i" l msgs] once by simp
  from single_signal_count [OF rl this]
  show "result_count i (take l outs) = (if complete i idx k (take l msgs) then 1 else 0)" .
next
  fix msgs' outs' m'
  assume a: "run q (newMultiplier idx n k) msgs' = Inr (outs', m') \<and>
        completes i idx k msgs \<and> completes i idx k msgs' \<and>
        last_signal i msgs = last_signal i msgs' \<and>
        set (stored q i idx msgs) = set (stored q i idx msgs')"
  from completes_results [OF assms, of i] a obtain r where
    r: "spec_result q n idx i msgs = Some r" "results_of i outs = [r]" by blast
  from a completes_results [of q idx n k msgs' outs' m' i] obtain r' where
    r': "spec_result q n idx i msgs' = Some r'" "results_of i outs' = [r']" by blast
  from spec_result_order [OF r(1) r'(1)] a have "r = r'" by blast
  with r(2) r'(2) show "results_of i outs = results_of i outs'" "length (results_of i outs) = 1"
    by simp_all
qed

text \<open>
  The theorem at concrete inputs, over the field of 7 elements with \<open>n = 3\<close>, \<open>k = 2\<close> and
  the multiplier of index 1: the signal after two openings, the signal before and after
  one opening, a repeated signal, and an opening without shares.
\<close>

lemma ex_runs:
  "isl (run 7 (newMultiplier 1 3 2) ex_late) = False"
  "isl (run 7 (newMultiplier 1 3 2) ex_first) = False"
  "isl (run 7 (newMultiplier 1 3 2) ex_last) = False"
  "isl (run 7 (newMultiplier 1 3 2) ex_repeat) = False"
  "isl (run 7 (newMultiplier 1 3 2) [OpenMulMessage ex_open2, OpenMulMessage ex_open3]) = False"
  "isl (run 7 (newMultiplier 1 3 2) [OpenMulMessage ex_short]) = False"
  by code_simp+

lemma ex_complete:
  "complete [1] 1 2 (take 2 ex_late) = False"
  "complete [1] 1 2 ex_late = True"
  "completes [1] 1 2 ex_first = True"
  "completes [1] 1 2 ex_last = True"
  "completes [1] 1 2 ex_late = True"
  "completes [1] 1 2 ex_ragged = True"
  "complete [1] 1 2 ex_repeat = True"
  "completes [1] 1 2 (take 1 ex_repeat) = False"
  "completes [1] 1 2 (take 2 ex_repeat) = True"
  "completes [1] 1 2 (take 3 ex_repeat) = False"
  by code_simp+

lemma ex_spec:
  "spec_result 7 3 1 [1] ex_late = Some (NewResult [1] [share_new 1 0])"
  "spec_result 7 3 1 [1] ex_ragged = None"
  "spec_result 7 3 1 [1] (take 2 ex_repeat) = Some (NewResult [1] [share_new 1 3])"
  "last_signal [1] ex_first = last_signal [1] ex_last"
  "set (stored 7 [1] 1 ex_first) = set (stored 7 [1] 1 ex_last)"
  "length (filter (is_mul_for [1]) ex_late) \<le> 1"
  by code_simp+

theorem one_result_when_complete_witness:
  "(\<exists>outs m. run 7 (newMultiplier 1 3 2) ex_late = Inr (outs, m) \<and>
      results_of [1] (take 2 outs) = [] \<and>
      results_of [1] (take 3 outs) = [NewResult [1] [share_new 1 0]] \<and>
      result_count [1] (take 2 outs) = 0 \<and> result_count [1] (take 3 outs) = 1) \<and>
   (\<exists>outs m outs' m'.
      run 7 (newMultiplier 1 3 2) ex_first = Inr (outs, m) \<and>
      run 7 (newMultiplier 1 3 2) ex_last = Inr (outs', m') \<and>
      results_of [1] outs = results_of [1] outs' \<and> length (results_of [1] outs) = 1) \<and>
   (\<exists>outs m. run 7 (newMultiplier 1 3 2) ex_repeat = Inr (outs, m) \<and>
      results_of [1] (take 1 outs) = [] \<and>
      results_of [1] (take 2 outs) = [NewResult [1] [share_new 1 3]] \<and>
      results_of [1] (take 3 outs) = [NewResult [1] [share_new 1 3], NewResult [1] [share_new 1 3]]) \<and>
   (\<exists>e. run 7 (newMultiplier 1 3 2) ex_ragged = Inl e)"
proof -
  let ?M = "newMultiplier 1 3 2"
  obtain o1 m1 where r1: "run 7 ?M ex_late = Inr (o1, m1)"
    using ex_runs(1) by (cases "run 7 ?M ex_late") auto
  obtain o2 m2 where r2: "run 7 ?M ex_first = Inr (o2, m2)"
    using ex_runs(2) by (cases "run 7 ?M ex_first") auto
  obtain o3 m3 where r3: "run 7 ?M ex_last = Inr (o3, m3)"
    using ex_runs(3) by (cases "run 7 ?M ex_last") auto
  obtain o4 m4 where r4: "run 7 ?M ex_repeat = Inr (o4, m4)"
    using ex_runs(4) by (cases "run 7 ?M ex_repeat") auto
  obtain o5 m5 where r5: "run 7 ?M [OpenMulMessage ex_short] = Inr (o5, m5)"
    using ex_runs(6) by (cases "run 7 ?M [OpenMulMessage ex_short]") auto
  have len: "length ex_late = 3" "length ex_repeat = 3"
    by (simp_all add: ex_late_def ex_repeat_def)
  note T1 = one_result_when_complete [OF r1, of "[1]"]
  from T1 ex_complete(1) len(1) have a1: "results_of [1] (take 2 o1) = []" by simp
  from T1 ex_complete(2) obtain j r where
    j: "j < length ex_late" "completes [1] 1 2 (take (Suc j) ex_late)"
    "spec_result 7 3 1 [1] (take (Suc j) ex_late) = Some r"
    "\<forall>l. j < l \<and> l \<le> length ex_late \<longrightarrow>
       results_of [1] (take l o1)
         = replicate (Suc (length (filter (is_mul_for [1]) (drop (Suc j) (take l ex_late))))) r"
    by auto
  have "completes [1] 1 2 (take 1 ex_late) = False" "completes [1] 1 2 (take 2 ex_late) = False"
    by code_simp+
  with j(1,2) len(1) have j2: "j = 2"
    by (cases "j = 0"; cases "j = 1") (auto simp: numeral_2_eq_2)
  with j(3) ex_spec(1) len(1) have "r = NewResult [1] [share_new 1 0]" by simp
  with j(4) j2 len(1) have a2: "results_of [1] (take 3 o1) = [NewResult [1] [share_new 1 0]]"
    by simp
  from T1 ex_spec(6) ex_complete(1,2) len(1)
  have a3: "result_count [1] (take 2 o1) = 0" "result_count [1] (take 3 o1) = 1"
    by simp_all
  note T2 = one_result_when_complete [OF r2, of "[1]"]
  from T2 r3 ex_complete(3,4) ex_spec(4,5)
  have b: "results_of [1] o2 = results_of [1] o3 \<and> length (results_of [1] o2) = 1"
    by blast
  note T4 = one_result_when_complete [OF r4, of "[1]"]
  from T4 ex_complete(7) obtain j' r' where
    j': "j' < length ex_repeat" "completes [1] 1 2 (take (Suc j') ex_repeat)"
    "spec_result 7 3 1 [1] (take (Suc j') ex_repeat) = Some r'"
    "\<forall>l. j' < l \<and> l \<le> length ex_repeat \<longrightarrow>
       results_of [1] (take l o4)
         = replicate (Suc (length (filter (is_mul_for [1]) (drop (Suc j') (take l ex_repeat))))) r'"
    by auto
  from j'(1,2) len(2) ex_complete(8,10) have j1: "j' = 1"
    by (cases "j' = 0"; cases "j' = 1"; cases "j' = 2") (auto simp: numeral_3_eq_3)
  with j'(3) ex_spec(3) have r': "r' = NewResult [1] [share_new 1 3]"
    by (simp add: numeral_2_eq_2)
  have nc: "\<not> complete [1] 1 2 (take 1 ex_repeat)" by code_simp
  from T4 nc len(2) have c1: "results_of [1] (take 1 o4) = []" by simp
  from j'(4) j1 r' len(2) have c2: "results_of [1] (take 2 o4) = [NewResult [1] [share_new 1 3]]"
    by (simp add: ex_repeat_def)
  from j'(4) j1 r' len(2)
  have c3: "results_of [1] (take 3 o4) = [NewResult [1] [share_new 1 3], NewResult [1] [share_new 1 3]]"
    by (simp add: ex_repeat_def is_mul_for_def ex_signal_def)
  note T5 = one_result_when_complete [OF r5, of "[1]"]
  have "completes [1] 1 2 ([OpenMulMessage ex_short] @ [MulMessage ex_signal])"
    using ex_complete(6) by (simp add: ex_ragged_def)
  moreover have "spec_result 7 3 1 [1] ([OpenMulMessage ex_short] @ [MulMessage ex_signal]) = None"
    using ex_spec(2) by (simp add: ex_ragged_def)
  ultimately have d: "\<exists>e. run 7 ?M ex_ragged = Inl e"
    using T5 by (auto simp: ex_ragged_def)
  from r1 a1 a2 a3 r2 r3 b r4 c1 c2 c3 d show ?thesis by blast
qed

text \<open>
  Claim C1 as stated fails. With \<open>k = 2\<close> the multiplier emits its result after the signal
  and the opening of one other sender, because its own opening counts. The same signal
  and the same two openings give a different result when the signal comes first (the
  result is interpolated from the own opening and the first one) and when it comes last
  (it is interpolated from all three). With the signal and openings of two senders
  delivered, the multiplier panics and emits nothing when two shares carry the same
  index or when an opening has no shares. And a second \<^verbatim>\<open>Mul\<close> for the id is answered
  with the result again, so two results are emitted for one id.
\<close>

theorem result_depends_on_arrival_order:
  "emitted (run 7 (newMultiplier 1 3 2) ex_first) = [NewResult [1] [share_new 1 3]] \<and>
   emitted (run 7 (newMultiplier 1 3 2) ex_early) = [NewResult [1] [share_new 1 3]] \<and>
   emitted (run 7 (newMultiplier 1 3 2) ex_late) = [NewResult [1] [share_new 1 0]] \<and>
   complete [1] 1 2 ex_clashing \<and>
   map_sum id fst (run 7 (newMultiplier 1 3 2) ex_clashing) = Inl (JoinFailed ErrDuplicateIndex) \<and>
   complete [1] 1 2 ex_ragged \<and>
   map_sum id fst (run 7 (newMultiplier 1 3 2) ex_ragged) = Inl IndexOutOfRange \<and>
   emitted (run 7 (newMultiplier 1 3 2) ex_repeat)
     = [NewResult [1] [share_new 1 3], NewResult [1] [share_new 1 3]]"
  by code_simp
section \<open>Properties of the program interpreter\<close>

lemma Exec_Rand:
  "PC prog < length (Code prog) \<Longrightarrow> Code prog ! PC prog = InstRand inst \<Longrightarrow>
   Exec add prog h = execInstRand inst prog h"
  by (simp add: Exec_def)

lemma Exec_Mul:
  "PC prog < length (Code prog) \<Longrightarrow> Code prog ! PC prog = InstMul inst \<Longrightarrow>
   Exec add prog h = execInstMul inst prog h"
  by (simp add: Exec_def)

lemma Exec_Open:
  "PC prog < length (Code prog) \<Longrightarrow> Code prog ! PC prog = InstOpen inst \<Longrightarrow>
   Exec add prog h = execInstOpen inst prog h"
  by (simp add: Exec_def)

lemma rand_first_entry:
  assumes "RhoCh inst = None \<or> SigmaCh inst = None"
  shows "execInstRand inst prog h =
     Inr (NotReady (Some (IntentToGenRn (next_chan h) (Suc (next_chan h)))),
          prog\<lparr>Code := (Code prog)[PC prog := InstRand
             (inst\<lparr>RhoCh := Some (next_chan h), SigmaCh := Some (Suc (next_chan h))\<rparr>)]\<rparr>,
          snd (make_chan (snd (make_chan h))))"
proof -
  have "execInstRand inst prog h =
     (let (rhoCh, h1) = make_chan h;
          (sigmaCh, h2) = make_chan h1;
          inst' = inst\<lparr>RhoCh := Some rhoCh, SigmaCh := Some sigmaCh\<rparr>
      in Inr (NotReady (Some (GenRn rhoCh sigmaCh)),
              prog\<lparr>Code := (Code prog)[PC prog := InstRand inst']\<rparr>, h2))"
    using assms by (cases "RhoCh inst"; cases "SigmaCh inst") (simp_all add: execInstRand_def)
  then show ?thesis
    by (simp add: make_chan_def GenRn_def Let_def)
qed

lemma rand_wait_rho:
  assumes "RhoCh inst = Some rc" "SigmaCh inst = Some sc" "\<not> RhoReady inst" "share_slot h rc = None"
  shows "execInstRand inst prog h = Inr (NotReady None, prog, h)"
  using assms by (simp add: execInstRand_def recv_share_def)

lemma rand_wait_sigma:
  assumes "RhoCh inst = Some rc" "SigmaCh inst = Some sc"
    and "RhoReady inst \<or> share_slot h rc \<noteq> None"
    and "\<not> SigmaReady inst" "share_slot h sc = None"
  shows "\<exists>prog' h'. execInstRand inst prog h = Inr (NotReady None, prog', h') \<and>
           PC prog' = PC prog \<and> Stack prog' = Stack prog"
  using assms
  by (auto simp: execInstRand_def recv_share_def Let_def split: option.splits if_splits)

lemma rand_done:
  assumes "RhoCh inst = Some rc" "SigmaCh inst = Some sc" "rc \<noteq> sc"
    and "RhoReady inst \<and> r = Rho inst \<or> \<not> RhoReady inst \<and> share_slot h rc = Some r"
    and "SigmaReady inst \<and> s = Sigma inst \<or> \<not> SigmaReady inst \<and> share_slot h sc = Some s"
  shows "\<exists>prog' h'. execInstRand inst prog h = Inr (Ready, prog', h') \<and>
           PC prog' = Suc (PC prog) \<and>
           Stack prog' = push_unchecked (Stack prog) (ValuePrivateRn r s)"
  using assms
  by (auto simp: execInstRand_def recv_share_def Let_def split: option.splits)

lemma mul_first_entry:
  assumes "MulRetCh inst = None"
    and "stack_values (Stack prog) = ValuePrivateRn \<rho> \<sigma> # ValuePrivate y # ValuePrivate x # rest"
  shows "execInstMul inst prog h =
     Inr (NotReady (Some (IntentToMultiply x y \<rho> \<sigma> (next_chan h))),
          prog\<lparr>Stack := (Stack prog)\<lparr>stack_values := rest\<rparr>,
               Code := (Code prog)[PC prog := InstMul (inst\<lparr>MulRetCh := Some (next_chan h)\<rparr>)]\<rparr>,
          snd (make_chan h))"
  using assms
  by (simp add: execInstMul_def Pop_def make_chan_def Multiply_def Let_def)

lemma mul_wait:
  assumes "MulRetCh inst = Some c" "\<not> MulRetReady inst" "share_slot h c = None"
  shows "execInstMul inst prog h = Inr (NotReady None, prog, h)"
  using assms by (simp add: execInstMul_def recv_share_def)

lemma mul_done:
  assumes "MulRetCh inst = Some c"
    and "MulRetReady inst \<and> r = MulRet inst \<or> \<not> MulRetReady inst \<and> share_slot h c = Some r"
  shows "\<exists>prog' h'. execInstMul inst prog h = Inr (Ready, prog', h') \<and>
           PC prog' = Suc (PC prog) \<and> Stack prog' = push_unchecked (Stack prog) (ValuePrivate r)"
  using assms
  by (auto simp: execInstMul_def recv_share_def Let_def split: option.splits)

lemma open_first_entry:
  assumes "OpenRetCh inst = None"
    and "stack_values (Stack prog) = ValuePrivate v # rest"
  shows "execInstOpen inst prog h =
     Inr (NotReady (Some (IntentToOpen v (next_chan h))),
          prog\<lparr>Stack := (Stack prog)\<lparr>stack_values := rest\<rparr>,
               Code := (Code prog)[PC prog := InstOpen (inst\<lparr>OpenRetCh := Some (next_chan h)\<rparr>)]\<rparr>,
          snd (make_chan h))"
  using assms
  by (simp add: execInstOpen_def Pop_def make_chan_def Open_def Let_def)

lemma open_wait:
  assumes "OpenRetCh inst = Some c" "\<not> OpenRetReady inst" "int_slot h c = None"
  shows "execInstOpen inst prog h = Inr (NotReady None, prog, h)"
  using assms by (simp add: execInstOpen_def recv_int_def)

lemma open_done:
  assumes "OpenRetCh inst = Some c"
    and "OpenRetReady inst \<and> r = OpenRet inst \<or> \<not> OpenRetReady inst \<and> int_slot h c = Some r"
  shows "\<exists>prog' h'. execInstOpen inst prog h = Inr (Ready, prog', h') \<and>
           PC prog' = Suc (PC prog) \<and> Stack prog' = push_unchecked (Stack prog) (ValuePublic r)"
  using assms
  by (auto simp: execInstOpen_def recv_int_def Let_def split: option.splits)

lemma push_unchecked_room:
  "length (stack_values s) < stack_limit s \<Longrightarrow>
   stack_values (push_unchecked s v) = v # stack_values s"
  by (simp add: push_unchecked_def Push_def)

lemma make_chan_fresh:
  "make_chan h = (c, h') \<Longrightarrow>
     c = next_chan h \<and> next_chan h' = Suc c \<and> share_slot h' c = None \<and> int_slot h' c = None \<and>
     (\<forall>d. d \<noteq> c \<longrightarrow> share_slot h' d = share_slot h d \<and> int_slot h' d = int_slot h d)"
  by (auto simp: make_chan_def)

text \<open>
  Claim C2, as amended. When the program counter has reached or passed the code length,
  \<^verbatim>\<open>Exec\<close> returns \<^verbatim>\<open>NotReady\<close> with the error intent for a code overflow at that
  program counter, whatever the stack holds, and leaves the program and the channels as
  they were. The interpreter has no exit intent.
\<close>

theorem exec_past_code_is_error:
  "length (Code prog) \<le> PC prog \<Longrightarrow>
   Exec add prog h = Inr (NotReady (Some (IntentToError CodeOverflow (PC prog))), prog, h)"
  by (simp add: Exec_def ErrorCodeOverflow_def ErrorExecution_def)

theorem exec_past_code_is_error_witness:
  "length (Code ex_past_end) \<le> PC ex_past_end \<and>
   Exec (value_add 251) ex_past_end ex_chans
     = Inr (NotReady (Some (IntentToError CodeOverflow 5)), ex_past_end, ex_chans)"
proof -
  have h: "length (Code ex_past_end) \<le> PC ex_past_end"
    by (simp add: ex_past_end_def New_def)
  from exec_past_code_is_error [OF h, of "value_add 251" ex_chans] h show ?thesis
    by (simp add: ex_past_end_def New_def)
qed

text \<open>
  Claim C2 as stated fails: a program that has run its only instruction and holds the
  value it pushed gets the code overflow error, not an exit with that value.
\<close>

theorem exec_at_end_with_values_is_error:
  "stack_values (Stack ex_finished) = [ValuePublic 7] \<and>
   PC ex_finished = length (Code ex_finished) \<and>
   Exec (value_add 251) ex_finished ex_chans
     = Inr (NotReady (Some (IntentToError CodeOverflow 1)), ex_finished, ex_chans)"
  by (simp add: Exec_def ErrorCodeOverflow_def ErrorExecution_def ex_finished_def New_def ex_stack_def)

text \<open>
  Claim C5 fails on the code for \<^verbatim>\<open>Add\<close>: with a \<^verbatim>\<open>ValuePrivateRn\<close> as the left operand
  \<^verbatim>\<open>execInstAdd\<close> reaches its \<^verbatim>\<open>default\<close> branch and panics, where \<^verbatim>\<open>execInstMul\<close> and
  \<^verbatim>\<open>execInstOpen\<close> return an error intent for an operand of the wrong type (lemmas
  \<open>mul_errors_are_intents\<close> and \<open>open_errors_are_intents\<close> below).
\<close>

theorem add_private_rn_operand_panics:
  "Exec (value_add 251) ex_add_rn ex_chans = Inl Unimplemented"
  by (simp add: Exec_def execInstAdd_def Pop_def ex_add_rn_def New_def ex_stack_def)

lemma add_lhs_private_rn_panics:
  assumes "PC prog < length (Code prog)" "Code prog ! PC prog = InstAdd"
    and "stack_values (Stack prog) = rhs # ValuePrivateRn a b # rest"
  shows "Exec add prog h = Inl Unimplemented"
  using assms by (simp add: Exec_def execInstAdd_def Pop_def)

lemma mul_errors_are_intents:
  assumes "MulRetCh inst = None"
    and "\<not> (\<exists>\<rho> \<sigma> y x rest.
            stack_values (Stack prog) = ValuePrivateRn \<rho> \<sigma> # ValuePrivate y # ValuePrivate x # rest)"
  shows "\<exists>err prog'. execInstMul inst prog h
           = Inr (NotReady (Some (IntentToError err (PC prog))), prog', h)"
proof (cases "stack_values (Stack prog)")
  case Nil
  then show ?thesis
    using assms(1) by (auto simp: execInstMul_def Pop_def ErrorExecution_def)
next
  case c1: (Cons v1 r1)
  show ?thesis
  proof (cases v1)
    case (ValuePrivateRn \<rho> \<sigma>)
    show ?thesis
    proof (cases r1)
      case Nil
      with c1 ValuePrivateRn assms(1) show ?thesis
        by (auto simp: execInstMul_def Pop_def ErrorExecution_def)
    next
      case c2: (Cons v2 r2)
      show ?thesis
      proof (cases v2)
        case (ValuePrivate y)
        show ?thesis
        proof (cases r2)
          case Nil
          with c1 c2 ValuePrivateRn ValuePrivate assms(1) show ?thesis
            by (auto simp: execInstMul_def Pop_def ErrorExecution_def)
        next
          case c3: (Cons v3 r3)
          with c1 c2 ValuePrivateRn ValuePrivate assms show ?thesis
            by (cases v3)
              (auto simp: execInstMul_def Pop_def ErrorExecution_def ErrorUnexpectedValue_def)
        qed
      qed (use c1 c2 ValuePrivateRn assms(1) in
          \<open>auto simp: execInstMul_def Pop_def ErrorExecution_def ErrorUnexpectedValue_def\<close>)
    qed
  qed (use c1 assms(1) in
      \<open>auto simp: execInstMul_def Pop_def ErrorExecution_def ErrorUnexpectedValue_def\<close>)
qed

lemma open_errors_are_intents:
  assumes "OpenRetCh inst = None"
    and "\<not> (\<exists>v rest. stack_values (Stack prog) = ValuePrivate v # rest)"
  shows "\<exists>err prog'. execInstOpen inst prog h
           = Inr (NotReady (Some (IntentToError err (PC prog))), prog', h)"
proof (cases "stack_values (Stack prog)")
  case Nil
  then show ?thesis
    using assms(1) by (auto simp: execInstOpen_def Pop_def ErrorExecution_def)
next
  case (Cons v1 r1)
  with assms show ?thesis
    by (cases v1)
      (auto simp: execInstOpen_def Pop_def ErrorExecution_def ErrorUnexpectedValue_def)
qed

text \<open>
  The steps of the suspending instructions. At a program counter inside the code: a
  \<^verbatim>\<open>Rand\<close>, \<^verbatim>\<open>Mul\<close> or \<^verbatim>\<open>Open\<close> instruction without sinks (for \<^verbatim>\<open>Mul\<close> and \<^verbatim>\<open>Open\<close>: on a
  stack that holds the operands) gets fresh empty sinks stored into the code at the
  program counter, and \<^verbatim>\<open>Exec\<close> returns \<^verbatim>\<open>NotReady\<close> with the intent that carries those
  sinks; with sinks, \<^verbatim>\<open>Exec\<close> returns \<^verbatim>\<open>NotReady(nil)\<close> without moving the program counter
  or the stack while a sink that was not yet read is empty, and once every sink is read
  or filled it returns \<^verbatim>\<open>Ready\<close>, increments the program counter and makes the unchecked
  push of the source, which puts the value on top of a stack with room. A fresh sink is
  the next unused channel, empty, and making it leaves the other channels alone.
\<close>

lemma suspending_steps:
  assumes "PC prog < length (Code prog)"
  shows
    "(Code prog ! PC prog = InstRand ri \<longrightarrow>
        (RhoCh ri = None \<or> SigmaCh ri = None \<longrightarrow>
           Exec add prog h =
             Inr (NotReady (Some (IntentToGenRn (next_chan h) (Suc (next_chan h)))),
                  prog\<lparr>Code := (Code prog)[PC prog := InstRand
                     (ri\<lparr>RhoCh := Some (next_chan h), SigmaCh := Some (Suc (next_chan h))\<rparr>)]\<rparr>,
                  snd (make_chan (snd (make_chan h))))) \<and>
        (\<forall>rc sc. RhoCh ri = Some rc \<and> SigmaCh ri = Some sc \<longrightarrow>
           (\<not> RhoReady ri \<and> share_slot h rc = None \<longrightarrow>
              Exec add prog h = Inr (NotReady None, prog, h)) \<and>
           ((RhoReady ri \<or> share_slot h rc \<noteq> None) \<and> \<not> SigmaReady ri \<and> share_slot h sc = None \<longrightarrow>
              (\<exists>prog' h'. Exec add prog h = Inr (NotReady None, prog', h') \<and>
                 PC prog' = PC prog \<and> Stack prog' = Stack prog)) \<and>
           (\<forall>r s. rc \<noteq> sc \<and>
                  (RhoReady ri \<and> r = Rho ri \<or> \<not> RhoReady ri \<and> share_slot h rc = Some r) \<and>
                  (SigmaReady ri \<and> s = Sigma ri \<or> \<not> SigmaReady ri \<and> share_slot h sc = Some s) \<longrightarrow>
              (\<exists>prog' h'. Exec add prog h = Inr (Ready, prog', h') \<and>
                 PC prog' = Suc (PC prog) \<and>
                 Stack prog' = push_unchecked (Stack prog) (ValuePrivateRn r s))))) \<and>
     (Code prog ! PC prog = InstMul mi \<longrightarrow>
        (\<forall>\<rho> \<sigma> y x rest. MulRetCh mi = None \<and>
            stack_values (Stack prog) = ValuePrivateRn \<rho> \<sigma> # ValuePrivate y # ValuePrivate x # rest \<longrightarrow>
           Exec add prog h =
             Inr (NotReady (Some (IntentToMultiply x y \<rho> \<sigma> (next_chan h))),
                  prog\<lparr>Stack := (Stack prog)\<lparr>stack_values := rest\<rparr>,
                       Code := (Code prog)[PC prog := InstMul (mi\<lparr>MulRetCh := Some (next_chan h)\<rparr>)]\<rparr>,
                  snd (make_chan h))) \<and>
        (\<forall>c. MulRetCh mi = Some c \<longrightarrow>
           (\<not> MulRetReady mi \<and> share_slot h c = None \<longrightarrow>
              Exec add prog h = Inr (NotReady None, prog, h)) \<and>
           (\<forall>r. MulRetReady mi \<and> r = MulRet mi \<or> \<not> MulRetReady mi \<and> share_slot h c = Some r \<longrightarrow>
              (\<exists>prog' h'. Exec add prog h = Inr (Ready, prog', h') \<and>
                 PC prog' = Suc (PC prog) \<and>
                 Stack prog' = push_unchecked (Stack prog) (ValuePrivate r))))) \<and>
     (Code prog ! PC prog = InstOpen oi \<longrightarrow>
        (\<forall>v rest. OpenRetCh oi = None \<and> stack_values (Stack prog) = ValuePrivate v # rest \<longrightarrow>
           Exec add prog h =
             Inr (NotReady (Some (IntentToOpen v (next_chan h))),
                  prog\<lparr>Stack := (Stack prog)\<lparr>stack_values := rest\<rparr>,
                       Code := (Code prog)[PC prog := InstOpen (oi\<lparr>OpenRetCh := Some (next_chan h)\<rparr>)]\<rparr>,
                  snd (make_chan h))) \<and>
        (\<forall>c. OpenRetCh oi = Some c \<longrightarrow>
           (\<not> OpenRetReady oi \<and> int_slot h c = None \<longrightarrow>
              Exec add prog h = Inr (NotReady None, prog, h)) \<and>
           (\<forall>r. OpenRetReady oi \<and> r = OpenRet oi \<or> \<not> OpenRetReady oi \<and> int_slot h c = Some r \<longrightarrow>
              (\<exists>prog' h'. Exec add prog h = Inr (Ready, prog', h') \<and>
                 PC prog' = Suc (PC prog) \<and>
                 Stack prog' = push_unchecked (Stack prog) (ValuePublic r))))) \<and>
     (\<forall>c h'. make_chan h = (c, h') \<longrightarrow>
        c = next_chan h \<and> next_chan h' = Suc c \<and> share_slot h' c = None \<and> int_slot h' c = None \<and>
        (\<forall>d. d \<noteq> c \<longrightarrow> share_slot h' d = share_slot h d \<and> int_slot h' d = int_slot h d)) \<and>
     (\<forall>s v. length (stack_values s) < stack_limit s \<longrightarrow>
        stack_values (push_unchecked s v) = v # stack_values s)"
proof (intro conjI impI allI)
  assume "Code prog ! PC prog = InstRand ri"
  note E = Exec_Rand [OF assms this, of add h]
  { assume "RhoCh ri = None \<or> SigmaCh ri = None"
    then show "Exec add prog h =
             Inr (NotReady (Some (IntentToGenRn (next_chan h) (Suc (next_chan h)))),
                  prog\<lparr>Code := (Code prog)[PC prog := InstRand
                     (ri\<lparr>RhoCh := Some (next_chan h), SigmaCh := Some (Suc (next_chan h))\<rparr>)]\<rparr>,
                  snd (make_chan (snd (make_chan h))))"
      unfolding E by (rule rand_first_entry) }
  fix rc sc assume c: "RhoCh ri = Some rc \<and> SigmaCh ri = Some sc"
  { assume "\<not> RhoReady ri \<and> share_slot h rc = None"
    with c show "Exec add prog h = Inr (NotReady None, prog, h)"
      unfolding E by (simp add: rand_wait_rho) }
  { assume "(RhoReady ri \<or> share_slot h rc \<noteq> None) \<and> \<not> SigmaReady ri \<and> share_slot h sc = None"
    with c show "\<exists>prog' h'. Exec add prog h = Inr (NotReady None, prog', h') \<and>
                 PC prog' = PC prog \<and> Stack prog' = Stack prog"
      unfolding E using rand_wait_sigma [of ri rc sc h prog] by blast }
  { fix r s
    assume "rc \<noteq> sc \<and>
                  (RhoReady ri \<and> r = Rho ri \<or> \<not> RhoReady ri \<and> share_slot h rc = Some r) \<and>
                  (SigmaReady ri \<and> s = Sigma ri \<or> \<not> SigmaReady ri \<and> share_slot h sc = Some s)"
    with c show "\<exists>prog' h'. Exec add prog h = Inr (Ready, prog', h') \<and>
                 PC prog' = Suc (PC prog) \<and>
                 Stack prog' = push_unchecked (Stack prog) (ValuePrivateRn r s)"
      unfolding E using rand_done [of ri rc sc r h s prog] by blast }
next
  assume "Code prog ! PC prog = InstMul mi"
  note E = Exec_Mul [OF assms this, of add h]
  { fix \<rho> \<sigma> y x rest
    assume "MulRetCh mi = None \<and>
            stack_values (Stack prog) = ValuePrivateRn \<rho> \<sigma> # ValuePrivate y # ValuePrivate x # rest"
    then show "Exec add prog h =
             Inr (NotReady (Some (IntentToMultiply x y \<rho> \<sigma> (next_chan h))),
                  prog\<lparr>Stack := (Stack prog)\<lparr>stack_values := rest\<rparr>,
                       Code := (Code prog)[PC prog := InstMul (mi\<lparr>MulRetCh := Some (next_chan h)\<rparr>)]\<rparr>,
                  snd (make_chan h))"
      unfolding E by (simp add: mul_first_entry) }
  fix c assume c: "MulRetCh mi = Some c"
  { assume "\<not> MulRetReady mi \<and> share_slot h c = None"
    with c show "Exec add prog h = Inr (NotReady None, prog, h)"
      unfolding E by (simp add: mul_wait) }
  { fix r assume "MulRetReady mi \<and> r = MulRet mi \<or> \<not> MulRetReady mi \<and> share_slot h c = Some r"
    with c show "\<exists>prog' h'. Exec add prog h = Inr (Ready, prog', h') \<and>
                 PC prog' = Suc (PC prog) \<and>
                 Stack prog' = push_unchecked (Stack prog) (ValuePrivate r)"
      unfolding E using mul_done [of mi c r h prog] by blast }
next
  assume "Code prog ! PC prog = InstOpen oi"
  note E = Exec_Open [OF assms this, of add h]
  { fix v rest
    assume "OpenRetCh oi = None \<and> stack_values (Stack prog) = ValuePrivate v # rest"
    then show "Exec add prog h =
             Inr (NotReady (Some (IntentToOpen v (next_chan h))),
                  prog\<lparr>Stack := (Stack prog)\<lparr>stack_values := rest\<rparr>,
                       Code := (Code prog)[PC prog := InstOpen (oi\<lparr>OpenRetCh := Some (next_chan h)\<rparr>)]\<rparr>,
                  snd (make_chan h))"
      unfolding E by (simp add: open_first_entry) }
  fix c assume c: "OpenRetCh oi = Some c"
  { assume "\<not> OpenRetReady oi \<and> int_slot h c = None"
    with c show "Exec add prog h = Inr (NotReady None, prog, h)"
      unfolding E by (simp add: open_wait) }
  { fix r assume "OpenRetReady oi \<and> r = OpenRet oi \<or> \<not> OpenRetReady oi \<and> int_slot h c = Some r"
    with c show "\<exists>prog' h'. Exec add prog h = Inr (Ready, prog', h') \<and>
                 PC prog' = Suc (PC prog) \<and>
                 Stack prog' = push_unchecked (Stack prog) (ValuePublic r)"
      unfolding E using open_done [of oi c r h prog] by blast }
next
  fix c h' assume m: "make_chan h = (c, h')"
  from make_chan_fresh [OF m] show "c = next_chan h" "next_chan h' = Suc c"
    "share_slot h' c = None" "int_slot h' c = None"
    by blast+
  fix d assume "d \<noteq> c"
  with make_chan_fresh [OF m] show "share_slot h' d = share_slot h d" "int_slot h' d = int_slot h d"
    by blast+
next
  fix s :: Stack and v assume "length (stack_values s) < stack_limit s"
  then show "stack_values (push_unchecked s v) = v # stack_values s"
    by (rule push_unchecked_room)
qed

lemma suspending_steps_example:
  "PC ex_rand_prog < length (Code ex_rand_prog) \<and>
   Exec (value_add 251) ex_rand_prog ex_chans
     = Inr (NotReady (Some (IntentToGenRn 0 1)), ex_rand_waiting, ex_chans_made) \<and>
   Exec (value_add 251) ex_rand_waiting ex_chans_made
     = Inr (NotReady None, ex_rand_waiting, ex_chans_made) \<and>
   (\<exists>prog' h'. Exec (value_add 251) ex_rand_waiting ex_chans_filled = Inr (Ready, prog', h') \<and>
      PC prog' = 1 \<and>
      stack_values (Stack prog') = [ValuePrivateRn (share_new 1 5) (share_new 1 6)]) \<and>
   (\<exists>prog' h'. Exec (value_add 251) ex_mul_prog ex_chans
      = Inr (NotReady (Some (IntentToMultiply (share_new 1 2) (share_new 1 3)
               (share_new 1 5) (share_new 1 6) 0)), prog', h') \<and>
      PC prog' = 0 \<and> stack_values (Stack prog') = []) \<and>
   (\<exists>prog' h'. Exec (value_add 251) ex_open_prog ex_chans
      = Inr (NotReady (Some (IntentToOpen (share_new 1 3) 0)), prog', h') \<and>
      PC prog' = 0 \<and> stack_values (Stack prog') = [])"
proof -
  let ?ri = "\<lparr>RhoCh = None, SigmaCh = None, RhoReady = False, Rho = zero_share,
                SigmaReady = False, Sigma = zero_share\<rparr>"
  let ?rw = "\<lparr>RhoCh = Some 0, SigmaCh = Some 1, RhoReady = False, Rho = zero_share,
                SigmaReady = False, Sigma = zero_share\<rparr>"
  let ?mi = "\<lparr>MulRetCh = None, MulRetReady = False, MulRet = zero_share\<rparr>"
  let ?oi = "\<lparr>OpenRetCh = None, OpenRetReady = False, OpenRet = 0\<rparr>"
  have p1: "PC ex_rand_prog < length (Code ex_rand_prog)"
    by (simp add: ex_rand_prog_def New_def)
  have p2: "PC ex_rand_waiting < length (Code ex_rand_waiting)"
    by (simp add: ex_rand_waiting_def New_def)
  have p3: "PC ex_mul_prog < length (Code ex_mul_prog)"
    by (simp add: ex_mul_prog_def New_def)
  have p4: "PC ex_open_prog < length (Code ex_open_prog)"
    by (simp add: ex_open_prog_def New_def)
  have c1: "Code ex_rand_prog ! PC ex_rand_prog = InstRand ?ri"
    by (simp add: ex_rand_prog_def New_def)
  have c2: "Code ex_rand_waiting ! PC ex_rand_waiting = InstRand ?rw"
    by (simp add: ex_rand_waiting_def New_def)
  have c3: "Code ex_mul_prog ! PC ex_mul_prog = InstMul ?mi"
    by (simp add: ex_mul_prog_def New_def)
  have c4: "Code ex_open_prog ! PC ex_open_prog = InstOpen ?oi"
    by (simp add: ex_open_prog_def New_def)
  from suspending_steps [OF p1, where ri = ?ri and add = "value_add 251" and h = ex_chans] c1
  have a: "Exec (value_add 251) ex_rand_prog ex_chans
     = Inr (NotReady (Some (IntentToGenRn 0 1)), ex_rand_waiting, ex_chans_made)"
    by (simp add: ex_rand_prog_def ex_rand_waiting_def New_def ex_chans_def ex_chans_made_def
        make_chan_def)
  from suspending_steps [OF p2, where ri = ?rw and add = "value_add 251" and h = ex_chans_made] c2
  have b: "Exec (value_add 251) ex_rand_waiting ex_chans_made
     = Inr (NotReady None, ex_rand_waiting, ex_chans_made)"
    by (simp add: ex_chans_made_def)
  have f: "(0::nat) \<noteq> 1 \<and>
      (RhoReady ?rw \<and> share_new 1 5 = Rho ?rw \<or> \<not> RhoReady ?rw \<and> share_slot ex_chans_filled 0 = Some (share_new 1 5)) \<and>
      (SigmaReady ?rw \<and> share_new 1 6 = Sigma ?rw \<or> \<not> SigmaReady ?rw \<and> share_slot ex_chans_filled 1 = Some (share_new 1 6))"
    by (simp add: ex_chans_filled_def ex_chans_made_def)
  from suspending_steps [OF p2, where ri = ?rw and add = "value_add 251" and h = ex_chans_filled] c2 f
  have "\<exists>prog' h'. Exec (value_add 251) ex_rand_waiting ex_chans_filled = Inr (Ready, prog', h') \<and>
      PC prog' = Suc (PC ex_rand_waiting) \<and>
      Stack prog' = push_unchecked (Stack ex_rand_waiting) (ValuePrivateRn (share_new 1 5) (share_new 1 6))"
    by simp
  then have c: "\<exists>prog' h'. Exec (value_add 251) ex_rand_waiting ex_chans_filled = Inr (Ready, prog', h') \<and>
      PC prog' = 1 \<and>
      stack_values (Stack prog') = [ValuePrivateRn (share_new 1 5) (share_new 1 6)]"
    by (auto simp: ex_rand_waiting_def New_def ex_stack_def push_unchecked_def Push_def)
  from suspending_steps [OF p3, where mi = ?mi and add = "value_add 251" and h = ex_chans] c3
  have d: "\<exists>prog' h'. Exec (value_add 251) ex_mul_prog ex_chans
      = Inr (NotReady (Some (IntentToMultiply (share_new 1 2) (share_new 1 3)
               (share_new 1 5) (share_new 1 6) 0)), prog', h') \<and>
      PC prog' = 0 \<and> stack_values (Stack prog') = []"
    by (simp add: ex_mul_prog_def New_def ex_stack_def ex_chans_def)
  from suspending_steps [OF p4, where oi = ?oi and add = "value_add 251" and h = ex_chans] c4
  have e: "\<exists>prog' h'. Exec (value_add 251) ex_open_prog ex_chans
      = Inr (NotReady (Some (IntentToOpen (share_new 1 3) 0)), prog', h') \<and>
      PC prog' = 0 \<and> stack_values (Stack prog') = []"
    by (simp add: ex_open_prog_def New_def ex_stack_def ex_chans_def)
  from p1 a b c d e show ?thesis by blast
qed

text \<open>
  On a full stack the push fails, and the suspending instructions do not look at its
  error: the result that arrived is dropped, the stack stays as it was, and \<^verbatim>\<open>Exec\<close>
  still returns \<^verbatim>\<open>Ready\<close> and increments the program counter. \<^verbatim>\<open>Push\<close> at the same place
  returns the error intent for the stack overflow.
\<close>

lemma push_unchecked_full:
  "stack_limit s \<le> length (stack_values s) \<Longrightarrow> push_unchecked s v = s"
  by (simp add: push_unchecked_def Push_def)

lemma suspended_result_dropped_on_full_stack:
  assumes pc: "PC prog < length (Code prog)"
    and full: "stack_limit (Stack prog) \<le> length (stack_values (Stack prog))"
  shows
    "(Code prog ! PC prog = InstRand ri \<and> RhoCh ri = Some rc \<and> SigmaCh ri = Some sc \<and> rc \<noteq> sc \<and>
      (RhoReady ri \<or> share_slot h rc \<noteq> None) \<and> (SigmaReady ri \<or> share_slot h sc \<noteq> None) \<longrightarrow>
        (\<exists>prog' h'. Exec add prog h = Inr (Ready, prog', h') \<and>
           PC prog' = Suc (PC prog) \<and> Stack prog' = Stack prog)) \<and>
     (Code prog ! PC prog = InstMul mi \<and> MulRetCh mi = Some c \<and>
      (MulRetReady mi \<or> share_slot h c \<noteq> None) \<longrightarrow>
        (\<exists>prog' h'. Exec add prog h = Inr (Ready, prog', h') \<and>
           PC prog' = Suc (PC prog) \<and> Stack prog' = Stack prog)) \<and>
     (Code prog ! PC prog = InstOpen oi \<and> OpenRetCh oi = Some c \<and>
      (OpenRetReady oi \<or> int_slot h c \<noteq> None) \<longrightarrow>
        (\<exists>prog' h'. Exec add prog h = Inr (Ready, prog', h') \<and>
           PC prog' = Suc (PC prog) \<and> Stack prog' = Stack prog)) \<and>
     (Code prog ! PC prog = InstPush v \<longrightarrow>
        Exec add prog h = Inr (NotReady (Some (IntentToError (StackError StackOverflow) (PC prog))), prog, h))"
proof (intro conjI impI)
  assume a: "Code prog ! PC prog = InstRand ri \<and> RhoCh ri = Some rc \<and> SigmaCh ri = Some sc \<and> rc \<noteq> sc \<and>
      (RhoReady ri \<or> share_slot h rc \<noteq> None) \<and> (SigmaReady ri \<or> share_slot h sc \<noteq> None)"
  then obtain r s where
    "RhoReady ri \<and> r = Rho ri \<or> \<not> RhoReady ri \<and> share_slot h rc = Some r"
    "SigmaReady ri \<and> s = Sigma ri \<or> \<not> SigmaReady ri \<and> share_slot h sc = Some s"
    by (cases "RhoReady ri"; cases "SigmaReady ri") auto
  with a rand_done [of ri rc sc r h s prog] Exec_Rand [OF pc, of ri add h]
  show "\<exists>prog' h'. Exec add prog h = Inr (Ready, prog', h') \<and>
           PC prog' = Suc (PC prog) \<and> Stack prog' = Stack prog"
    by (auto simp: push_unchecked_full [OF full])
next
  assume a: "Code prog ! PC prog = InstMul mi \<and> MulRetCh mi = Some c \<and>
      (MulRetReady mi \<or> share_slot h c \<noteq> None)"
  then obtain r where "MulRetReady mi \<and> r = MulRet mi \<or> \<not> MulRetReady mi \<and> share_slot h c = Some r"
    by (cases "MulRetReady mi") auto
  with a mul_done [of mi c r h prog] Exec_Mul [OF pc, of mi add h]
  show "\<exists>prog' h'. Exec add prog h = Inr (Ready, prog', h') \<and>
           PC prog' = Suc (PC prog) \<and> Stack prog' = Stack prog"
    by (auto simp: push_unchecked_full [OF full])
next
  assume a: "Code prog ! PC prog = InstOpen oi \<and> OpenRetCh oi = Some c \<and>
      (OpenRetReady oi \<or> int_slot h c \<noteq> None)"
  then obtain r where "OpenRetReady oi \<and> r = OpenRet oi \<or> \<not> OpenRetReady oi \<and> int_slot h c = Some r"
    by (cases "OpenRetReady oi") auto
  with a open_done [of oi c r h prog] Exec_Open [OF pc, of oi add h]
  show "\<exists>prog' h'. Exec add prog h = Inr (Ready, prog', h') \<and>
           PC prog' = Suc (PC prog) \<and> Stack prog' = Stack prog"
    by (auto simp: push_unchecked_full [OF full])
next
  assume "Code prog ! PC prog = InstPush v"
  with pc full show "Exec add prog h
      = Inr (NotReady (Some (IntentToError (StackError StackOverflow) (PC prog))), prog, h)"
    by (simp add: Exec_def execInstPush_def Push_def ErrorExecution_def)
qed

text \<open>
  Claim C6 fails on the code where the stack is full. The program pushes one value onto
  a stack with room for one and then executes \<^verbatim>\<open>Rand\<close>: the first entry returns
  \<^verbatim>\<open>NotReady\<close> with the intent and its two fresh sinks, the next entry on empty sinks
  returns \<^verbatim>\<open>NotReady(nil)\<close>, and the entry on filled sinks returns \<^verbatim>\<open>Ready\<close> and increments
  the program counter, but the stack still holds the one value: the random pair was not
  pushed. (A \<^verbatim>\<open>Push\<close> in the place of the \<^verbatim>\<open>Rand\<close> returns the error intent.)
\<close>

theorem rand_on_full_stack_loses_result:
  "Exec (value_add 251) ex_full_start ex_chans = Inr (Ready, ex_full_pushed, ex_chans) \<and>
   Exec (value_add 251) ex_full_pushed ex_chans
     = Inr (NotReady (Some (IntentToGenRn 0 1)), ex_full_waiting, ex_chans_made) \<and>
   Exec (value_add 251) ex_full_waiting ex_chans_made
     = Inr (NotReady None, ex_full_waiting, ex_chans_made) \<and>
   Exec (value_add 251) ex_full_waiting ex_chans_filled = Inr (Ready, ex_full_done, ex_chans_made) \<and>
   PC ex_full_done = Suc (PC ex_full_waiting) \<and>
   Stack ex_full_done = Stack ex_full_waiting \<and>
   stack_values (Stack ex_full_done) = [ValuePublic 7] \<and>
   Exec (value_add 251) ex_full_push_again ex_chans
     = Inr (NotReady (Some (IntentToError (StackError StackOverflow) 1)), ex_full_push_again, ex_chans)"
  by (simp add: Exec_def execInstPush_def execInstRand_def Push_def push_unchecked_def
      recv_share_def make_chan_def GenRn_def ErrorExecution_def Ready_def NotReady_def
      ex_full_start_def ex_full_pushed_def ex_full_waiting_def ex_full_done_def
      ex_full_push_again_def ex_small_stack_def ex_rand_fresh_def New_def
      ex_chans_def ex_chans_made_def ex_chans_filled_def fun_eq_iff Let_def)
section \<open>Properties of the VM dispatcher\<close>

text \<open>
  Claim C9. An \<^verbatim>\<open>rng.Result\<close>, \<^verbatim>\<open>mul.Result\<close> or \<^verbatim>\<open>open.Result\<close> whose message id is
  not the id of a registered intent makes \<^verbatim>\<open>Reduce\<close> return \<^verbatim>\<open>nil\<close>: no message, no
  error, no panic, and the dispatcher (its program map, its intent map, the inboxes of
  its child tasks) and every sink stay as they were.
\<close>

theorem unregistered_result_is_dropped:
  "(intents vm (msgidToIID (rng_Result_id r)) = None \<longrightarrow>
      vm_Reduce ops vm ch (rng_Result r) = Inr (VmNil, vm, ch)) \<and>
   (intents vm (msgidToIID (Result_id m)) = None \<longrightarrow>
      vm_Reduce ops vm ch (mul_Result m) = Inr (VmNil, vm, ch)) \<and>
   (intents vm (msgidToIID (open_Result_id v)) = None \<longrightarrow>
      vm_Reduce ops vm ch (open_Result v) = Inr (VmNil, vm, ch))"
  by (simp add: vm_Reduce_def recvInternalRngResult_def recvInternalMulResult_def
      recvInternalOpenResult_def)

theorem unregistered_result_is_dropped_witness:
  "intents ex_vm (msgidToIID (replicate 40 2)) = None \<and>
   vm_Reduce ex_ops ex_vm ex_sinks
       (rng_Result \<lparr>rng_Result_id = replicate 40 2, Rhos = [], Sigmas = [share_new 1 4]\<rparr>)
     = Inr (VmNil, ex_vm, ex_sinks) \<and>
   vm_Reduce ex_ops ex_vm ex_sinks (mul_Result (NewResult (replicate 40 2) [share_new 1 4]))
     = Inr (VmNil, ex_vm, ex_sinks) \<and>
   vm_Reduce ex_ops ex_vm ex_sinks
       (open_Result \<lparr>open_Result_id = replicate 40 2, open_Value = 5\<rparr>)
     = Inr (VmNil, ex_vm, ex_sinks)"
proof -
  have h: "intents ex_vm (msgidToIID (replicate 40 2)) = None"
    by (simp add: ex_vm_def msgidToIID_def copy_bytes_def)
  from unregistered_result_is_dropped
    [of ex_vm "\<lparr>rng_Result_id = replicate 40 2, Rhos = [], Sigmas = [share_new 1 4]\<rparr>" ex_ops ex_sinks
        "NewResult (replicate 40 2) [share_new 1 4]"
        "\<lparr>open_Result_id = replicate 40 2, open_Value = 5\<rparr>"] h
  show ?thesis by (simp add: NewResult_def)
qed

text \<open>
  For contrast, the result of a registered intent is delivered into the sink, the intent is
  dropped and the process runs again.
\<close>

lemma registered_result_resumes:
  "vm_Reduce ex_ops ex_vm ex_sinks (open_Result \<lparr>open_Result_id = replicate 40 1, open_Value = 5\<rparr>)
     = Inr (VmError (ProcessIsReady (replicate 32 1)),
            ex_vm\<lparr>intents := Map.empty\<rparr>,
            ex_sinks\<lparr>value_sink := [0 \<mapsto> 5]\<rparr>)"
  by (simp add: vm_Reduce_def recvInternalOpenResult_def ex_vm_def ex_ops_def ex_sinks_def
      msgidToIID_def msgidToPid_def copy_bytes_def send_value_def resume_def exec_def Let_def)

section \<open>Properties of the Pedersen scheme and of verifiable secret sharing\<close>

lemma modexp_power: "modexp b e m = b ^ e mod m"
proof (induction b e m rule: modexp.induct)
  case (1 b e m)
  show ?case
  proof (cases "e = 0")
    case True
    then show ?thesis by (simp add: modexp.simps)
  next
    case False
    have ih: "modexp b (e div 2) m = b ^ (e div 2) mod m"
      using False by (rule "1.IH")
    have "b ^ (2 * (e div 2)) = b ^ (e div 2) * b ^ (e div 2)"
      by (simp add: mult_2 power_add)
    then have sq: "modexp b (e div 2) m * modexp b (e div 2) m mod m = b ^ (2 * (e div 2)) mod m"
      unfolding ih by (simp add: mod_mult_eq)
    show ?thesis
    proof (cases "even e")
      case True
      then have "2 * (e div 2) = e" by simp
      with sq False True show ?thesis
        by (subst modexp.simps) (simp add: Let_def)
    next
      case False
      then have e: "e = Suc (2 * (e div 2))" by (simp add: odd_two_times_div_two_succ)
      have "modexp b e m = (b ^ (2 * (e div 2)) mod m) * b mod m"
        using sq False \<open>e \<noteq> 0\<close> by (subst modexp.simps) (simp add: Let_def)
      also have "\<dots> = b ^ Suc (2 * (e div 2)) mod m"
        by (simp add: mod_mult_right_eq mult.commute)
      finally show ?thesis using e by simp
    qed
  qed
qed

lemma Commit_power:
  "Commit ped (Some s) (Some t) = Some (ped_g ped ^ nat s * ped_h ped ^ nat t mod ped_p ped)"
  by (simp add: Commit_def modexp_power mod_mult_eq)

text \<open>
  Claim C7. \<open>Verify(s, t, C)\<close> is OK exactly when \<open>C = Commit(s, t)\<close>, it is
  \<open>UnacceptableCommitment\<close> whenever \<open>C\<close> differs from \<open>Commit(s, t)\<close>, it is
  \<open>NilArguments\<close> whenever one of the three inputs is absent, and \<open>Commit(s, t)\<close> is
  \<open>g\<^sup>s \<cdot> h\<^sup>t mod p\<close>.
\<close>

theorem pedersen_verify_cases:
  "(pedersen_Verify ped (Some s) (Some t) (Some c) = None \<longleftrightarrow>
      Commit ped (Some s) (Some t) = Some c) \<and>
   (Commit ped (Some s) (Some t) \<noteq> Some c \<longrightarrow>
      pedersen_Verify ped (Some s) (Some t) (Some c) = Some ErrUnacceptableCommitment) \<and>
   (s' = None \<or> t' = None \<or> c' = None \<longrightarrow> pedersen_Verify ped s' t' c' = Some ErrNilArguments) \<and>
   Commit ped (Some s) (Some t) = Some (ped_g ped ^ nat s * ped_h ped ^ nat t mod ped_p ped)"
proof -
  have "s' = None \<or> t' = None \<or> c' = None \<longrightarrow> pedersen_Verify ped s' t' c' = Some ErrNilArguments"
    by (auto simp: pedersen_Verify_def split: option.splits)
  then show ?thesis
    by (simp add: pedersen_Verify_def Commit_power)
qed

lemma ex_commit_value: "Commit ex_ped (Some 5) (Some 3) = Some 24"
  by code_simp

theorem pedersen_verify_cases_witness:
  "pedersen_Verify ex_ped (Some 5) (Some 3) (Some 24) = None \<and>
   pedersen_Verify ex_ped (Some 5) (Some 3) (Some 25) = Some ErrUnacceptableCommitment \<and>
   pedersen_Verify ex_ped None (Some 3) (Some 24) = Some ErrNilArguments \<and>
   (351 ^ 5 * 8 ^ 3 mod 503 :: int) = 24"
proof -
  note T = pedersen_verify_cases [of ex_ped 5 3 _ None "Some 3" "Some 24"]
  from T [of 24] ex_commit_value have a: "pedersen_Verify ex_ped (Some 5) (Some 3) (Some 24) = None"
    by simp
  from T [of 25] ex_commit_value
  have b: "pedersen_Verify ex_ped (Some 5) (Some 3) (Some 25) = Some ErrUnacceptableCommitment"
    by simp
  from T [of 24] have c: "pedersen_Verify ex_ped None (Some 3) (Some 24) = Some ErrNilArguments"
    by simp
  from T [of 24] ex_commit_value have d: "(351 ^ 5 * 8 ^ 3 mod 503 :: int) = 24"
    by (simp add: ex_ped_def)
  from a b c d show ?thesis by blast
qed

subsection \<open>Inverses and Lagrange interpolation modulo a prime\<close>

lemma egcd_bezout:
  "egcd a b = (g, u, v) \<Longrightarrow> int g = u * int a + v * int b \<and> g = gcd a b"
proof (induction a b arbitrary: g u v rule: egcd.induct)
  case (1 a b)
  show ?case
  proof (cases "b = 0")
    case True
    with "1.prems" show ?thesis by (simp add: egcd.simps)
  next
    case False
    obtain g' u' v' where r: "egcd b (a mod b) = (g', u', v')"
      by (cases "egcd b (a mod b)") auto
    from "1.prems" False r have e: "g = g'" "u = v'" "v = u' - int (a div b) * v'"
      by (auto simp: egcd.simps [of a b])
    from "1.IH" [OF False r] have ih: "int g' = u' * int b + v' * int (a mod b)" "g' = gcd b (a mod b)"
      by simp_all
    have "int a = int (a div b) * int b + int (a mod b)"
      by (metis div_mult_mod_eq of_nat_add of_nat_mult)
    then have "int (a mod b) = int a - int (a div b) * int b" by simp
    with ih(1) have "int g' = v' * int a + (u' - int (a div b) * v') * int b"
      by (simp add: algebra_simps)
    moreover have "g' = gcd a b" using ih(2) by (metis gcd.commute gcd_red_nat)
    ultimately show ?thesis using e by simp
  qed
qed

lemma is_prime_coprime:
  assumes "is_prime q" "0 < a" "a < q"
  shows "gcd (nat a) (nat q) = 1"
proof -
  let ?g = "gcd (nat a) (nat q)"
  have q: "1 < q" and nd: "\<And>m. 2 \<le> m \<Longrightarrow> m < q \<Longrightarrow> \<not> m dvd q"
    using assms(1) by (auto simp: is_prime_def)
  have "?g dvd nat q" by simp
  then have "int ?g dvd int (nat q)" by (simp only: int_dvd_int_iff)
  then have gq: "int ?g dvd q" using q by simp
  have ga: "?g dvd nat a" by simp
  then have "?g \<le> nat a" using assms(2) by (intro dvd_imp_le) simp_all
  then have lt: "int ?g < q" using assms(2,3) by linarith
  have "?g \<noteq> 0" using assms(2) by simp
  then have "1 \<le> ?g" by linarith
  show ?thesis
  proof (rule ccontr)
    assume "?g \<noteq> 1"
    with \<open>1 \<le> ?g\<close> have "2 \<le> int ?g" by linarith
    from nd [OF this lt] gq show False by simp
  qed
qed

lemma fp_inv_correct:
  assumes "is_prime q" "d mod q \<noteq> 0"
  shows "d * fp_inv q d mod q = 1"
proof -
  have q: "1 < q" using assms(1) by (simp add: is_prime_def)
  let ?a = "d mod q"
  have "0 \<le> ?a" "?a < q" using q by simp_all
  with assms(2) have a: "0 < ?a" "?a < q" by simp_all
  obtain g u v where e: "egcd (nat ?a) (nat q) = (g, u, v)"
    by (cases "egcd (nat ?a) (nat q)") auto
  from egcd_bezout [OF e] is_prime_coprime [OF assms(1) a]
  have "u * int (nat ?a) + v * int (nat q) = 1" by simp
  with a q have b: "u * ?a + v * q = 1" by simp
  have "d * fp_inv q d mod q = ?a * (u mod q) mod q"
    using e by (simp add: fp_inv_def mod_mult_left_eq)
  also have "\<dots> = (u * ?a + v * q) mod q"
    by (simp add: mod_mult_right_eq mult.commute)
  also have "\<dots> = 1" using b q by simp
  finally show ?thesis .
qed

lemma prod_list_map_remove1:
  fixes f :: "'a \<Rightarrow> int"
  shows "a \<in> set ys \<Longrightarrow> prod_list (map f ys) = f a * prod_list (map f (remove1 a ys))"
  by (induction ys) (auto simp: ac_simps)

lemma lag_remove1:
  assumes "a \<in> set xs" "x \<noteq> a"
  shows "lag q xs x = (a * fp_inv q (a - x)) * lag q (remove1 a xs) x"
proof -
  have "a \<in> set (filter (\<lambda>xj. xj \<noteq> x) xs)" using assms by simp
  from prod_list_map_remove1 [OF this, of "\<lambda>xj. xj * fp_inv q (xj - x)"]
  show ?thesis
    by (simp add: lag_def filter_remove1)
qed

lemma interp_add: "interp q xs (\<lambda>x. f x + g x) = interp q xs f + interp q xs g"
  by (simp add: interp_def distrib_right sum_list_addf)

lemma interp_mult: "interp q xs (\<lambda>x. c * f x) = c * interp q xs f"
  by (simp add: interp_def mult.assoc sum_list_const_mult)

lemma interp_zero [simp]: "interp q xs (\<lambda>x. 0) = 0"
  by (simp add: interp_def)

lemma sum_list_mod_cong:
  fixes f g :: "'a \<Rightarrow> int"
  assumes "\<And>x. x \<in> set xs \<Longrightarrow> f x mod q = g x mod q"
  shows "sum_list (map f xs) mod q = sum_list (map g xs) mod q"
  using assms
proof (induction xs)
  case Nil
  show ?case by simp
next
  case (Cons a xs)
  have 1: "f a mod q = g a mod q" by (rule Cons.prems) simp
  have 2: "sum_list (map f xs) mod q = sum_list (map g xs) mod q"
    by (rule Cons.IH, rule Cons.prems) simp
  have "(f a + sum_list (map f xs)) mod q = (g a + sum_list (map g xs)) mod q"
    using 1 2 by (rule mod_add_cong)
  then show ?case by simp
qed

lemma neg_inv_step:
  assumes "is_prime q" "0 \<le> a" "a < q" "0 \<le> x" "x < q" "x \<noteq> a"
  shows "((x - a) * (a * fp_inv q (a - x))) mod q = (- a) mod q"
proof -
  have "(a - x) mod q \<noteq> 0"
  proof
    assume "(a - x) mod q = 0"
    then have "q dvd (a - x)" by (simp add: dvd_eq_mod_eq_0)
    moreover have "\<bar>a - x\<bar> < q" using assms by linarith
    ultimately have "a - x = 0"
      using dvd_imp_le_int [of "a - x" q] by (cases "a - x = 0") auto
    with assms(6) show False by simp
  qed
  from fp_inv_correct [OF assms(1) this] have i: "(a - x) * fp_inv q (a - x) mod q = 1" .
  have "(x - a) * (a * fp_inv q (a - x)) = (- a) * ((a - x) * fp_inv q (a - x))"
    by (simp add: algebra_simps)
  then have "((x - a) * (a * fp_inv q (a - x))) mod q = ((- a) * ((a - x) * fp_inv q (a - x) mod q)) mod q"
    by (simp only: mod_mult_right_eq)
  with i show ?thesis by simp
qed

lemma interp_shift:
  assumes p: "is_prime q" and d: "distinct xs" and r: "\<forall>x\<in>set xs. 0 \<le> x \<and> x < q"
    and a: "a \<in> set xs"
  shows "interp q xs (\<lambda>x. (x - a) * g x) mod q = (- a * interp q (remove1 a xs) g) mod q"
proof -
  let ?h = "\<lambda>x. (x - a) * g x * lag q xs x"
  have "interp q xs (\<lambda>x. (x - a) * g x) = ?h a + sum_list (map ?h (remove1 a xs))"
    unfolding interp_def using sum_list_map_remove1 [OF a, of ?h] by simp
  then have e: "interp q xs (\<lambda>x. (x - a) * g x) = sum_list (map ?h (remove1 a xs))" by simp
  have t: "?h x mod q = (- a * (g x * lag q (remove1 a xs) x)) mod q"
    if "x \<in> set (remove1 a xs)" for x
  proof -
    from that d have xa: "x \<noteq> a" and xin: "x \<in> set xs" by (auto simp: set_remove1_eq)
    from r a xin have b: "0 \<le> a" "a < q" "0 \<le> x" "x < q" by auto
    have "?h x = ((x - a) * (a * fp_inv q (a - x))) * (g x * lag q (remove1 a xs) x)"
      by (simp add: lag_remove1 [OF a xa] algebra_simps)
    then have "?h x mod q = (((x - a) * (a * fp_inv q (a - x))) mod q * (g x * lag q (remove1 a xs) x)) mod q"
      by (simp only: mod_mult_left_eq)
    also have "\<dots> = ((- a) mod q * (g x * lag q (remove1 a xs) x)) mod q"
      by (simp only: neg_inv_step [OF p b xa])
    finally show ?thesis by (simp only: mod_mult_left_eq)
  qed
  have "sum_list (map ?h (remove1 a xs)) mod q
      = sum_list (map (\<lambda>x. - a * (g x * lag q (remove1 a xs) x)) (remove1 a xs)) mod q"
    by (rule sum_list_mod_cong) (rule t)
  also have "sum_list (map (\<lambda>x. - a * (g x * lag q (remove1 a xs) x)) (remove1 a xs))
      = - a * interp q (remove1 a xs) g"
    unfolding interp_def by (simp only: sum_list_const_mult)
  finally show ?thesis using e by simp
qed

lemma remove1_props:
  assumes "distinct xs" "\<forall>x\<in>set xs. 0 \<le> x \<and> x < (q::int)" "a \<in> set xs"
  shows "distinct (remove1 a xs)" "\<forall>x\<in>set (remove1 a xs). 0 \<le> x \<and> x < q"
    "length (remove1 a xs) = length xs - 1"
  using assms by (auto simp: length_remove1 dest: notin_set_remove1)

lemma mod_mult_one_left:
  fixes a b q :: int
  assumes "b mod q = 1"
  shows "(a * b) mod q = a mod q"
proof -
  have "(a * b) mod q = (a * (b mod q)) mod q" by (simp only: mod_mult_right_eq)
  with assms show ?thesis by simp
qed

lemma residues_differ:
  fixes a b q :: int
  assumes "0 \<le> a" "a < q" "0 \<le> b" "b < q" "a \<noteq> b"
  shows "(b - a) mod q \<noteq> 0"
proof
  assume "(b - a) mod q = 0"
  then have "q dvd (b - a)" by (simp add: dvd_eq_mod_eq_0)
  moreover have "\<bar>b - a\<bar> < q" using assms by linarith
  ultimately have "b - a = 0"
    using dvd_imp_le_int [of "b - a" q] by (cases "b - a = 0") auto
  with assms(5) show False by simp
qed

lemma cong_cancel:
  assumes p: "is_prime q" and ne: "d mod q \<noteq> 0" and e: "(d * t) mod q = d mod q"
  shows "t mod q = 1"
proof -
  let ?i = "fp_inv q d"
  from fp_inv_correct [OF p ne] have i: "d * ?i mod q = 1" .
  have "t mod q = (t * (d * ?i)) mod q"
    using mod_mult_one_left [OF i, of t] by simp
  also have "t * (d * ?i) = (d * t) * ?i" by (simp only: ac_simps)
  also have "((d * t) * ?i) mod q = ((d * t) mod q * ?i) mod q"
    by (simp only: mod_mult_left_eq)
  also have "\<dots> = (d mod q * ?i) mod q" by (simp only: e)
  also have "\<dots> = (d * ?i) mod q" by (simp only: mod_mult_left_eq)
  finally show ?thesis using i by simp
qed

lemma interp_diff: "interp q xs (\<lambda>x. f x - g x) = interp q xs f - interp q xs g"
  by (simp add: interp_def left_diff_distrib sum_list_subtractf)

lemma interp_const: "interp q xs (\<lambda>x. c) = c * interp q xs (\<lambda>x. 1)"
  using interp_mult [of q xs c "\<lambda>x. 1"] by simp

lemma interp_shift_one:
  assumes p: "is_prime q" and d: "distinct xs" and r: "\<forall>x\<in>set xs. 0 \<le> x \<and> x < q"
    and a: "a \<in> set xs" and one: "interp q (remove1 a xs) (\<lambda>x. 1) mod q = 1"
  shows "interp q xs (\<lambda>x. x - a) mod q = (- a) mod q"
proof -
  from interp_shift [OF p d r a, of "\<lambda>x. 1"]
  have "interp q xs (\<lambda>x. x - a) mod q = (- a * interp q (remove1 a xs) (\<lambda>x. 1)) mod q"
    by simp
  also have "\<dots> = (- a) mod q" by (rule mod_mult_one_left [OF one])
  finally show ?thesis .
qed

lemma interp_one:
  assumes p: "is_prime q"
  shows "distinct xs \<Longrightarrow> \<forall>x\<in>set xs. 0 \<le> x \<and> x < q \<Longrightarrow> xs \<noteq> [] \<Longrightarrow>
         interp q xs (\<lambda>x. 1) mod q = 1"
proof (induction "length xs" arbitrary: xs rule: less_induct)
  case less
  have q: "1 < q" using p by (simp add: is_prime_def)
  from less.prems(3) obtain a rest where xs: "xs = a # rest" by (cases xs) auto
  show ?case
  proof (cases rest)
    case Nil
    with xs q show ?thesis by (simp add: interp_def lag_def)
  next
    case (Cons b rest')
    with xs less.prems(1) have ab: "a \<noteq> b" and ain: "a \<in> set xs" and bin: "b \<in> set xs"
      by auto
    let ?T = "interp q xs (\<lambda>x. 1)"
    have len: "2 \<le> length xs" using xs Cons by simp
    have ra: "interp q (remove1 a xs) (\<lambda>x. 1) mod q = 1"
    proof (rule less.hyps)
      show "length (remove1 a xs) < length xs"
        using remove1_props(3) [OF less.prems(1,2) ain] len by simp
      show "distinct (remove1 a xs)" using less.prems(1) by simp
      show "\<forall>x\<in>set (remove1 a xs). 0 \<le> x \<and> x < q"
        using remove1_props(2) [OF less.prems(1,2) ain] .
      show "remove1 a xs \<noteq> []"
        using remove1_props(3) [OF less.prems(1,2) ain] len by auto
    qed
    have rb: "interp q (remove1 b xs) (\<lambda>x. 1) mod q = 1"
    proof (rule less.hyps)
      show "length (remove1 b xs) < length xs"
        using remove1_props(3) [OF less.prems(1,2) bin] len by simp
      show "distinct (remove1 b xs)" using less.prems(1) by simp
      show "\<forall>x\<in>set (remove1 b xs). 0 \<le> x \<and> x < q"
        using remove1_props(2) [OF less.prems(1,2) bin] .
      show "remove1 b xs \<noteq> []"
        using remove1_props(3) [OF less.prems(1,2) bin] len by auto
    qed
    note sa = interp_shift_one [OF p less.prems(1,2) ain ra]
    note sb = interp_shift_one [OF p less.prems(1,2) bin rb]
    have "interp q xs (\<lambda>x. (x - a) - (x - b)) = interp q xs (\<lambda>x. x - a) - interp q xs (\<lambda>x. x - b)"
      by (rule interp_diff)
    moreover have "(\<lambda>x::int. (x - a) - (x - b)) = (\<lambda>x. b - a)" by (simp add: fun_eq_iff)
    ultimately have "(b - a) * ?T = interp q xs (\<lambda>x. x - a) - interp q xs (\<lambda>x. x - b)"
      by (simp only: interp_const [symmetric])
    then have "((b - a) * ?T) mod q
        = (interp q xs (\<lambda>x. x - a) mod q - interp q xs (\<lambda>x. x - b) mod q) mod q"
      by (simp only: mod_diff_eq)
    also have "\<dots> = ((- a) mod q - (- b) mod q) mod q" by (simp only: sa sb)
    also have "\<dots> = ((- a) - (- b)) mod q" by (simp only: mod_diff_eq)
    also have "(- a) - (- b) = b - a" by simp
    finally have m: "((b - a) * ?T) mod q = (b - a) mod q" .
    have r: "0 \<le> a" "a < q" "0 \<le> b" "b < q" using less.prems(2) ain bin by auto
    from cong_cancel [OF p residues_differ [OF r ab] m] show ?thesis .
  qed
qed

lemma interp_power_Suc:
  assumes p: "is_prime q" and d: "distinct xs" and r: "\<forall>x\<in>set xs. 0 \<le> x \<and> x < q"
    and a: "a \<in> set xs"
  shows "interp q xs (\<lambda>x. x ^ Suc m) mod q
       = (- a * interp q (remove1 a xs) (\<lambda>x. x ^ m) + a * interp q xs (\<lambda>x. x ^ m)) mod q"
proof -
  have "(\<lambda>x::int. x ^ Suc m) = (\<lambda>x. (x - a) * x ^ m + a * x ^ m)"
    by (simp add: fun_eq_iff algebra_simps)
  then have "interp q xs (\<lambda>x. x ^ Suc m)
      = interp q xs (\<lambda>x. (x - a) * x ^ m) + a * interp q xs (\<lambda>x. x ^ m)"
    by (simp only: interp_add interp_mult)
  then have "interp q xs (\<lambda>x. x ^ Suc m) mod q
      = (interp q xs (\<lambda>x. (x - a) * x ^ m) mod q + a * interp q xs (\<lambda>x. x ^ m)) mod q"
    by (simp only: mod_add_left_eq)
  also have "\<dots> = ((- a * interp q (remove1 a xs) (\<lambda>x. x ^ m)) mod q + a * interp q xs (\<lambda>x. x ^ m)) mod q"
    by (simp only: interp_shift [OF p d r a])
  finally show ?thesis by (simp only: mod_add_left_eq)
qed

lemma mod_mult_zero_right:
  fixes a b q :: int
  assumes "b mod q = 0"
  shows "(a * b) mod q = 0"
proof -
  have "(a * b) mod q = (a * (b mod q)) mod q" by (simp only: mod_mult_right_eq)
  with assms show ?thesis by simp
qed

lemma mod_add_zero:
  fixes a b q :: int
  assumes "a mod q = 0" "b mod q = 0"
  shows "(a + b) mod q = 0"
proof -
  have "(a + b) mod q = (a mod q + b mod q) mod q" by (simp only: mod_add_eq)
  with assms show ?thesis by simp
qed

lemma interp_power:
  assumes p: "is_prime q"
  shows "distinct xs \<Longrightarrow> \<forall>x\<in>set xs. 0 \<le> x \<and> x < q \<Longrightarrow> 1 \<le> m \<Longrightarrow> m < length xs \<Longrightarrow>
         interp q xs (\<lambda>x. x ^ m) mod q = 0"
proof (induction m arbitrary: xs)
  case 0
  then show ?case by simp
next
  case (Suc m)
  from Suc.prems(4) obtain a rest where xs: "xs = a # rest" by (cases xs) auto
  then have a: "a \<in> set xs" by simp
  note R = remove1_props [OF Suc.prems(1,2) a]
  have len: "length (remove1 a xs) = length xs - 1" by (rule R(3))
  show ?case
  proof (cases "m = 0")
    case True
    have ne: "xs \<noteq> []" "remove1 a xs \<noteq> []" using Suc.prems(4) len True by auto
    have 1: "interp q xs (\<lambda>x. 1) mod q = 1"
      by (rule interp_one [OF p Suc.prems(1,2) ne(1)])
    have 2: "interp q (remove1 a xs) (\<lambda>x. 1) mod q = 1"
      by (rule interp_one [OF p R(1,2) ne(2)])
    have "interp q xs (\<lambda>x. x ^ Suc m) mod q
        = (- a * interp q (remove1 a xs) (\<lambda>x. 1) + a * interp q xs (\<lambda>x. 1)) mod q"
      using interp_power_Suc [OF p Suc.prems(1,2) a, of m] True by simp
    also have "\<dots> = ((- a * interp q (remove1 a xs) (\<lambda>x. 1)) mod q + (a * interp q xs (\<lambda>x. 1)) mod q) mod q"
      by (simp only: mod_add_eq)
    also have "\<dots> = ((- a) mod q + a mod q) mod q"
      by (simp only: mod_mult_one_left [OF 1] mod_mult_one_left [OF 2])
    also have "\<dots> = (- a + a) mod q" by (simp only: mod_add_eq)
    finally show ?thesis by simp
  next
    case False
    then have m: "1 \<le> m" by simp
    have 1: "interp q xs (\<lambda>x. x ^ m) mod q = 0"
      using Suc.IH [OF Suc.prems(1,2) m] Suc.prems(4) by simp
    have 2: "interp q (remove1 a xs) (\<lambda>x. x ^ m) mod q = 0"
      using Suc.IH [OF R(1,2) m] Suc.prems(4) len by simp
    have "interp q xs (\<lambda>x. x ^ Suc m) mod q
        = (- a * interp q (remove1 a xs) (\<lambda>x. x ^ m) + a * interp q xs (\<lambda>x. x ^ m)) mod q"
      by (rule interp_power_Suc [OF p Suc.prems(1,2) a])
    also have "\<dots> = 0"
      by (rule mod_add_zero) (rule mod_mult_zero_right, rule 2, rule mod_mult_zero_right, rule 1)
    finally show ?thesis .
  qed
qed

lemma interp_power_poly:
  assumes p: "is_prime q" and d: "distinct xs" and r: "\<forall>x\<in>set xs. 0 \<le> x \<and> x < q"
  shows "1 \<le> j \<Longrightarrow> j + length cs \<le> length xs \<Longrightarrow>
         interp q xs (\<lambda>x. x ^ j * poly_eval cs x) mod q = 0"
proof (induction cs arbitrary: j)
  case Nil
  then show ?case by simp
next
  case (Cons c cs)
  have "(\<lambda>x::int. x ^ j * poly_eval (c # cs) x) = (\<lambda>x. c * x ^ j + x ^ Suc j * poly_eval cs x)"
    by (simp add: fun_eq_iff algebra_simps)
  then have "interp q xs (\<lambda>x. x ^ j * poly_eval (c # cs) x)
      = c * interp q xs (\<lambda>x. x ^ j) + interp q xs (\<lambda>x. x ^ Suc j * poly_eval cs x)"
    by (simp only: interp_add interp_mult)
  moreover have "interp q xs (\<lambda>x. x ^ j) mod q = 0"
    using interp_power [OF p d r Cons.prems(1)] Cons.prems(2) by simp
  moreover have "interp q xs (\<lambda>x. x ^ Suc j * poly_eval cs x) mod q = 0"
    using Cons.IH [of "Suc j"] Cons.prems by simp
  ultimately show ?case
    by (simp only: mod_add_zero mod_mult_zero_right)
qed

lemma interp_poly:
  assumes p: "is_prime q" and d: "distinct xs" and r: "\<forall>x\<in>set xs. 0 \<le> x \<and> x < q"
    and l: "length (c # cs) \<le> length xs"
  shows "interp q xs (poly_eval (c # cs)) mod q = c mod q"
proof -
  have ne: "xs \<noteq> []" using l by auto
  have f: "poly_eval (c # cs) = (\<lambda>x. c * 1 + x ^ 1 * poly_eval cs x)"
    by (simp add: fun_eq_iff)
  have "interp q xs (poly_eval (c # cs)) = interp q xs (\<lambda>x. c * 1 + x ^ 1 * poly_eval cs x)"
    by (rule arg_cong [OF f])
  also have "\<dots> = c * interp q xs (\<lambda>x. 1) + interp q xs (\<lambda>x. x ^ 1 * poly_eval cs x)"
    by (simp only: interp_add interp_mult)
  finally have e: "interp q xs (poly_eval (c # cs))
      = c * interp q xs (\<lambda>x. 1) + interp q xs (\<lambda>x. x ^ 1 * poly_eval cs x)" .
  have A: "(c * interp q xs (\<lambda>x. 1)) mod q = c mod q"
    by (rule mod_mult_one_left [OF interp_one [OF p d r ne]])
  have B: "interp q xs (\<lambda>x. x ^ 1 * poly_eval cs x) mod q = 0"
    using interp_power_poly [OF p d r, of 1 cs] l by simp
  have "interp q xs (poly_eval (c # cs)) mod q
      = ((c * interp q xs (\<lambda>x. 1)) mod q + interp q xs (\<lambda>x. x ^ 1 * poly_eval cs x) mod q) mod q"
    unfolding e by (simp only: mod_add_eq)
  also have "\<dots> = (c mod q + 0) mod q" by (simp only: A B)
  also have "\<dots> = c mod q" by simp
  finally show ?thesis .
qed

lemma prod_list_mod:
  fixes f :: "'a \<Rightarrow> int"
  shows "prod_list (map (\<lambda>x. f x mod q) ys) mod q = prod_list (map f ys) mod q"
proof (induction ys)
  case Nil
  show ?case by simp
next
  case (Cons y ys)
  have "(f y mod q * prod_list (map (\<lambda>x. f x mod q) ys)) mod q
      = (f y mod q * (prod_list (map (\<lambda>x. f x mod q) ys) mod q)) mod q"
    by (simp only: mod_mult_right_eq)
  also have "\<dots> = (f y mod q * (prod_list (map f ys) mod q)) mod q" by (simp only: Cons.IH)
  also have "\<dots> = (f y * prod_list (map f ys)) mod q" by (simp only: mod_mult_eq)
  finally show ?case by simp
qed

lemma lagrange_coeff_lag: "lagrange_coeff q xs xi = lag q xs xi mod q"
  unfolding lagrange_coeff_def lag_def by (rule prod_list_mod)

lemma poly_eval_mod: "poly_eval cs (i mod q) mod q = poly_eval cs i mod q"
proof (induction cs)
  case Nil
  show ?case by simp
next
  case (Cons c cs)
  have "((i mod q) * poly_eval cs (i mod q)) mod q = (i * poly_eval cs i) mod q"
    using Cons.IH by (metis mod_mult_cong mod_mod_trivial)
  then have "(c + (i mod q) * poly_eval cs (i mod q)) mod q = (c + i * poly_eval cs i) mod q"
    by (rule mod_add_cong [OF refl])
  then show ?case by simp
qed

lemma lagrange0_interp:
  assumes v: "\<And>s. s \<in> set sel \<Longrightarrow> share_value s mod q = poly_eval cs (int (share_index s)) mod q"
  shows "lagrange0 q (map (share_point q) sel) = interp q (map (xof q) sel) (poly_eval cs) mod q"
proof -
  let ?xs = "map (xof q) sel"
  have fst: "map fst (map (share_point q) sel) = ?xs"
    by (simp add: share_point_def xof_def)
  have "lagrange0 q (map (share_point q) sel)
      = sum_list (map (\<lambda>s. share_value s * lagrange_coeff q ?xs (xof q s) mod q) sel) mod q"
    unfolding lagrange0_def fst by (simp add: share_point_def xof_def comp_def)
  also have "\<dots> = sum_list (map (\<lambda>s. poly_eval cs (xof q s) * lag q ?xs (xof q s)) sel) mod q"
  proof (rule sum_list_mod_cong)
    fix s assume s: "s \<in> set sel"
    let ?l = "lag q ?xs (xof q s)"
    have e: "share_value s mod q = poly_eval cs (xof q s) mod q"
      using v [OF s] by (simp add: xof_def poly_eval_mod)
    have "(share_value s * lagrange_coeff q ?xs (xof q s) mod q) mod q
        = (share_value s * (?l mod q)) mod q"
      by (simp only: lagrange_coeff_lag mod_mod_trivial)
    also have "\<dots> = (share_value s * ?l) mod q" by (simp only: mod_mult_right_eq)
    also have "\<dots> = (share_value s mod q * ?l) mod q" by (simp only: mod_mult_left_eq)
    also have "\<dots> = (poly_eval cs (xof q s) mod q * ?l) mod q" by (simp only: e)
    also have "\<dots> = (poly_eval cs (xof q s) * ?l) mod q" by (simp only: mod_mult_left_eq)
    finally show "(share_value s * lagrange_coeff q ?xs (xof q s) mod q) mod q
        = (poly_eval cs (xof q s) * lag q ?xs (xof q s)) mod q" .
  qed
  also have "sum_list (map (\<lambda>s. poly_eval cs (xof q s) * lag q ?xs (xof q s)) sel)
      = interp q ?xs (poly_eval cs)"
    by (simp add: interp_def comp_def)
  finally show ?thesis .
qed

lemma Join_polynomial:
  assumes p: "is_prime q"
    and d: "distinct (map (xof q) sel)"
    and v: "\<And>s. s \<in> set sel \<Longrightarrow> share_value s mod q = poly_eval (c # cs) (int (share_index s)) mod q"
    and l: "length (c # cs) \<le> length sel"
  shows "Join q sel = Inr (c mod q)"
proof -
  have q: "1 < q" using p by (simp add: is_prime_def)
  have ne: "sel \<noteq> []" using l by auto
  have d1: "distinct (map (\<lambda>s. int (share_index s) mod q) sel)"
    using d by (simp add: xof_def [abs_def])
  have d2: "distinct (map share_index sel)"
  proof -
    have "map (\<lambda>s. int (share_index s) mod q) sel = map (\<lambda>i. int i mod q) (map share_index sel)"
      by (simp add: comp_def)
    with d1 show ?thesis by (metis distinct_map)
  qed
  have r: "\<forall>x\<in>set (map (xof q) sel). 0 \<le> x \<and> x < q"
    using q by (auto simp: xof_def)
  have l': "length (c # cs) \<le> length (map (xof q) sel)" using l by simp
  have "lagrange0 q (map (share_point q) sel) = interp q (map (xof q) sel) (poly_eval (c # cs)) mod q"
    by (rule lagrange0_interp) (rule v)
  also have "\<dots> = c mod q" by (rule interp_poly [OF p d r l'])
  finally show ?thesis using ne d1 d2 by (simp add: Join_def)
qed

lemma inner_shares: "map vs_share (vss_Share ped s r as bs n) = shamir_Share (ped_q ped) s as n"
  by (simp add: vss_Share_def shamir_Share_def comp_def)

lemma index_residue_inj:
  assumes "1 \<le> i" "i \<le> n" "1 \<le> j" "j \<le> n" "int n \<le> q" "int i mod q = int j mod q"
  shows "i = j"
proof -
  have r: "int k mod q = (if int k = q then 0 else int k)" if "k \<le> n" for k
    using that assms(5) by (auto simp: mod_pos_pos_trivial)
  from assms(6) r [OF assms(2)] r [OF assms(4)] assms(1,3) show ?thesis
    by (auto split: if_splits)
qed

lemma shamir_selection_distinct:
  assumes "distinct sel" "set sel \<subseteq> set (shamir_Share q s as n)" "int n \<le> q"
  shows "distinct (map (xof q) sel)"
proof -
  have "inj_on (xof q) (set sel)"
  proof (rule inj_onI)
    fix a b assume a: "a \<in> set sel" and b: "b \<in> set sel" and e: "xof q a = xof q b"
    from a assms(2) obtain i where i: "1 \<le> i" "i \<le> n"
      "a = share_new i (poly_eval (s # as) (int i) mod q)"
      by (auto simp: shamir_Share_def)
    from b assms(2) obtain j where j: "1 \<le> j" "j \<le> n"
      "b = share_new j (poly_eval (s # as) (int j) mod q)"
      by (auto simp: shamir_Share_def)
    from e i(3) j(3) have "int i mod q = int j mod q"
      by (simp add: xof_def share_new_def)
    from index_residue_inj [OF i(1,2) j(1,2) assms(3) this] i(3) j(3) show "a = b" by simp
  qed
  with assms(1) show ?thesis by (simp add: distinct_map)
qed

lemma shamir_join:
  assumes p: "is_prime q" and d: "distinct sel"
    and sub: "set sel \<subseteq> set (shamir_Share q s as n)"
    and l: "Suc (length as) \<le> length sel" and n: "int n \<le> q"
  shows "Join q sel = Inr (s mod q)"
proof (rule Join_polynomial [OF p])
  show "distinct (map (xof q) sel)" by (rule shamir_selection_distinct [OF d sub n])
  show "length (s # as) \<le> length sel" using l by simp
  fix x assume "x \<in> set sel"
  with sub obtain i where "x = share_new i (poly_eval (s # as) (int i) mod q)"
    by (auto simp: shamir_Share_def)
  then show "share_value x mod q = poly_eval (s # as) (int (share_index x)) mod q"
    by (simp add: share_new_def)
qed

lemma int_npoly: "\<forall>c\<in>set cs. 0 \<le> c \<Longrightarrow> int (npoly cs i) = poly_eval cs (int i)"
  by (induction cs) simp_all

lemma power_mod_order:
  fixes g p :: int and e q :: nat
  assumes "g ^ q mod p = 1"
  shows "g ^ e mod p = g ^ (e mod q) mod p"
proof -
  have "g ^ e = g ^ (q * (e div q) + e mod q)" by simp
  also have "\<dots> = (g ^ q) ^ (e div q) * g ^ (e mod q)" by (simp only: power_add power_mult)
  finally have "g ^ e mod p = ((g ^ q) ^ (e div q) mod p * g ^ (e mod q)) mod p"
    by (simp only: mod_mult_left_eq)
  also have "(g ^ q) ^ (e div q) mod p = (g ^ q mod p) ^ (e div q) mod p"
    by (simp only: power_mod)
  also have "\<dots> = 1 mod p" by (simp only: assms power_one)
  also have "(1 mod p * g ^ (e mod q)) mod p = g ^ (e mod q) mod p"
    by (simp only: mod_mult_left_eq mult_1)
  finally show ?thesis .
qed

lemma commit_product_poly:
  assumes "length fs = length gs" "\<forall>c\<in>set fs. 0 \<le> c" "\<forall>c\<in>set gs. 0 \<le> c"
  shows "commit_product (ped_p ped) i j (commit_coeffs ped fs gs)
       = (ped_g ped ^ (i ^ j * npoly fs i) * ped_h ped ^ (i ^ j * npoly gs i)) mod ped_p ped"
  using assms
proof (induction fs gs arbitrary: j rule: list_induct2')
  case 1
  show ?case by (simp add: commit_coeffs_def)
next
  case (4 a fs b gs)
  let ?g = "ped_g ped" and ?h = "ped_h ped" and ?p = "ped_p ped"
  let ?C = "(?g ^ nat a * ?h ^ nat b) mod ?p"
  have ih: "commit_product ?p i (Suc j) (commit_coeffs ped fs gs)
      = (?g ^ (i ^ Suc j * npoly fs i) * ?h ^ (i ^ Suc j * npoly gs i)) mod ?p"
    using "4.IH" [of "Suc j"] "4.prems" by simp
  have c: "commit_coeffs ped (a # fs) (b # gs) = ?C # commit_coeffs ped fs gs"
    by (simp add: commit_coeffs_def modexp_power mod_mult_eq)
  have "commit_product ?p i j (commit_coeffs ped (a # fs) (b # gs))
      = (?C ^ (i ^ j) mod ?p * ((?g ^ (i ^ Suc j * npoly fs i) * ?h ^ (i ^ Suc j * npoly gs i)) mod ?p)) mod ?p"
    unfolding c by (simp only: commit_product.simps modexp_power ih)
  also have "\<dots> = ((?g ^ nat a * ?h ^ nat b) ^ (i ^ j)
                    * (?g ^ (i ^ Suc j * npoly fs i) * ?h ^ (i ^ Suc j * npoly gs i))) mod ?p"
    by (simp only: power_mod mod_mult_eq)
  also have "(?g ^ nat a * ?h ^ nat b) ^ (i ^ j)
                    * (?g ^ (i ^ Suc j * npoly fs i) * ?h ^ (i ^ Suc j * npoly gs i))
      = ?g ^ (i ^ j * npoly (a # fs) i) * ?h ^ (i ^ j * npoly (b # gs) i)"
    by (simp add: power_mult_distrib power_add power_mult [symmetric] algebra_simps)
  finally show ?case .
qed simp_all

lemma vss_verify_ok:
  assumes gq: "ped_g ped ^ nat (ped_q ped) mod ped_p ped = 1"
    and hq: "ped_h ped ^ nat (ped_q ped) mod ped_p ped = 1"
    and q0: "0 \<le> ped_q ped"
    and fs: "\<forall>c\<in>set (s # as). 0 \<le> c" and gs: "\<forall>c\<in>set (r # bs). 0 \<le> c"
    and len: "length as = length bs"
    and vs: "vs \<in> set (vss_Share ped s r as bs n)"
  shows "vss_Verify ped vs = Inr True"
proof -
  let ?g = "ped_g ped" and ?h = "ped_h ped" and ?p = "ped_p ped" and ?q = "ped_q ped"
  from vs obtain i where
    v: "vs = \<lparr>vs_share = share_new i (poly_eval (s # as) (int i) mod ?q),
               vs_rshare = share_new i (poly_eval (r # bs) (int i) mod ?q),
               vs_commitments = commit_coeffs ped (s # as) (r # bs)\<rparr>"
    by (auto simp: vss_Share_def)
  let ?N = "npoly (s # as) i" and ?M = "npoly (r # bs) i"
  have ne: "commit_coeffs ped (s # as) (r # bs) \<noteq> []" by (simp add: commit_coeffs_def)
  have N: "nat (poly_eval (s # as) (int i) mod ?q) = ?N mod nat ?q"
    using int_npoly [OF fs, of i] q0 by (metis nat_int nat_mod_distrib of_nat_0_le_iff)
  have M: "nat (poly_eval (r # bs) (int i) mod ?q) = ?M mod nat ?q"
    using int_npoly [OF gs, of i] q0 by (metis nat_int nat_mod_distrib of_nat_0_le_iff)
  have l: "length (s # as) = length (r # bs)" using len by simp
  have rhs: "commit_product ?p i 0 (commit_coeffs ped (s # as) (r # bs)) = (?g ^ ?N * ?h ^ ?M) mod ?p"
    using commit_product_poly [OF l fs gs, of ped i 0] by simp
  have "(modexp ?g (?N mod nat ?q) ?p * modexp ?h (?M mod nat ?q) ?p) mod ?p
      = (?g ^ (?N mod nat ?q) mod ?p * (?h ^ (?M mod nat ?q) mod ?p)) mod ?p"
    by (simp only: modexp_power)
  also have "\<dots> = (?g ^ ?N mod ?p * (?h ^ ?M mod ?p)) mod ?p"
    by (simp only: power_mod_order [OF gq, symmetric] power_mod_order [OF hq, symmetric])
  also have "\<dots> = (?g ^ ?N * ?h ^ ?M) mod ?p" by (simp only: mod_mult_eq)
  finally have "(modexp ?g (?N mod nat ?q) ?p * modexp ?h (?M mod nat ?q) ?p) mod ?p
      = commit_product ?p i 0 (commit_coeffs ped (s # as) (r # bs))"
    by (simp only: rhs)
  then show ?thesis
    unfolding v vss_Verify_def using ne
    by (simp add: share_new_def N M del: poly_eval.simps npoly.simps)
qed

lemma pedersen_New_valid:
  assumes "pedersen_New (Some p) (Some q) (Some g) (Some h) = Inr ped"
  shows "ped_p ped = p" "ped_q ped = q" "ped_g ped = g" "ped_h ped = h"
    "g ^ nat q mod p = 1" "h ^ nat q mod p = 1"
  using assms by (auto simp: pedersen_New_def modexp_power split: if_splits)

lemma poly_eval_add_coeffs:
  "length fs = length gs \<Longrightarrow> poly_eval (add_coeffs fs gs) x = poly_eval fs x + poly_eval gs x"
  by (induction fs gs rule: list_induct2) (simp_all add: add_coeffs_def algebra_simps)

lemma commit_coeffs_add:
  assumes "length fs = length gs" "length fs' = length fs" "length gs' = length fs"
    and "\<forall>c\<in>set fs. 0 \<le> c" "\<forall>c\<in>set gs. 0 \<le> c" "\<forall>c\<in>set fs'. 0 \<le> c" "\<forall>c\<in>set gs'. 0 \<le> c"
  shows "map (\<lambda>(x, y). x * y mod ped_p ped) (zip (commit_coeffs ped fs gs) (commit_coeffs ped fs' gs'))
       = commit_coeffs ped (add_coeffs fs fs') (add_coeffs gs gs')"
  using assms
proof (induction fs arbitrary: gs fs' gs')
  case Nil
  then show ?case by (simp add: commit_coeffs_def add_coeffs_def)
next
  case (Cons a fs)
  from Cons.prems(1,2,3) obtain b gs0 a' fs0' b' gs0' where
    e: "gs = b # gs0" "fs' = a' # fs0'" "gs' = b' # gs0'"
    by (metis length_Suc_conv)
  let ?g = "ped_g ped" and ?h = "ped_h ped" and ?p = "ped_p ped"
  have ih: "map (\<lambda>(x, y). x * y mod ?p) (zip (commit_coeffs ped fs gs0) (commit_coeffs ped fs0' gs0'))
       = commit_coeffs ped (add_coeffs fs fs0') (add_coeffs gs0 gs0')"
    using Cons.prems e by (intro Cons.IH) simp_all
  have nn: "0 \<le> a" "0 \<le> b" "0 \<le> a'" "0 \<le> b'" using Cons.prems e by simp_all
  have "((?g ^ nat a * ?h ^ nat b) mod ?p * ((?g ^ nat a' * ?h ^ nat b') mod ?p)) mod ?p
      = ((?g ^ nat a * ?h ^ nat b) * (?g ^ nat a' * ?h ^ nat b')) mod ?p"
    by (simp only: mod_mult_eq)
  also have "(?g ^ nat a * ?h ^ nat b) * (?g ^ nat a' * ?h ^ nat b')
      = ?g ^ nat (a + a') * ?h ^ nat (b + b')"
    using nn by (simp add: nat_add_distrib power_add algebra_simps)
  finally have hd: "((?g ^ nat a * ?h ^ nat b) mod ?p * ((?g ^ nat a' * ?h ^ nat b') mod ?p)) mod ?p
      = (?g ^ nat (a + a') * ?h ^ nat (b + b')) mod ?p" .
  have c: "commit_coeffs ped (x # xs) (y # ys)
      = (?g ^ nat x * ?h ^ nat y) mod ?p # commit_coeffs ped xs ys" for x xs y ys
    by (simp add: commit_coeffs_def modexp_power mod_mult_eq)
  have s: "add_coeffs (x # xs) (y # ys) = (x + y) # add_coeffs xs ys" for x xs y ys
    by (simp add: add_coeffs_def)
  show ?case
    unfolding e c s using ih hd by simp
qed

lemma vs_sums_is_sharing:
  assumes len: "length as = length bs" "length as' = length as" "length bs' = length as"
    and nn: "\<forall>c\<in>set (a # as). 0 \<le> c" "\<forall>c\<in>set (ra # bs). 0 \<le> c"
      "\<forall>c\<in>set (b # as'). 0 \<le> c" "\<forall>c\<in>set (rb # bs'). 0 \<le> c"
  shows "vs_sums ped (vss_Share ped a ra as bs n) (vss_Share ped b rb as' bs' n)
       = vss_Share ped (a + b) (ra + rb) (add_coeffs as as') (add_coeffs bs bs') n"
proof -
  let ?q = "ped_q ped"
  have l: "length (a # as) = length (ra # bs)" "length (b # as') = length (a # as)"
    "length (rb # bs') = length (a # as)"
    using len by simp_all
  have cs: "map (\<lambda>(x, y). x * y mod ped_p ped)
              (zip (commit_coeffs ped (a # as) (ra # bs)) (commit_coeffs ped (b # as') (rb # bs')))
       = commit_coeffs ped ((a + b) # add_coeffs as as') ((ra + rb) # add_coeffs bs bs')"
    using commit_coeffs_add [OF l nn(1,2,3,4), of ped] by (simp add: add_coeffs_def)
  have pf: "(poly_eval (a # as) x mod ?q + poly_eval (b # as') x mod ?q) mod ?q
       = poly_eval ((a + b) # add_coeffs as as') x mod ?q" for x
    using poly_eval_add_coeffs [of "a # as" "b # as'" x] len
    by (simp add: add_coeffs_def mod_add_eq algebra_simps)
  have pg: "(poly_eval (ra # bs) x mod ?q + poly_eval (rb # bs') x mod ?q) mod ?q
       = poly_eval ((ra + rb) # add_coeffs bs bs') x mod ?q" for x
    using poly_eval_add_coeffs [of "ra # bs" "rb # bs'" x] len
    by (simp add: add_coeffs_def mod_add_eq algebra_simps)
  have z: "zip (map f xs) (map g xs) = map (\<lambda>x. (f x, g x)) xs" for f g and xs :: "nat list"
    by (induction xs) simp_all
  show ?thesis
    unfolding vs_sums_def vss_Share_def z
    using cs pf pg
    by (simp add: vs_Add_def share_add_def share_new_def comp_def del: poly_eval.simps)
qed

text \<open>
  Claim C3, as amended. For a scheme that \<^verbatim>\<open>New\<close> accepts, with \<open>q\<close> prime, a secret
  \<open>s\<close> in \<open>F\<^sub>q\<close>, any blinding and coefficients (\<open>k - 1\<close> of each) and any \<open>n \<le> q\<close>:
  \<^verbatim>\<open>Share\<close> produces \<open>n\<close> verifiable shares, \<^verbatim>\<open>Verify\<close> accepts each of them, and
  \<^verbatim>\<open>shamir.Join\<close> of any selection without repetition of at least \<open>k\<close> of the inner
  shares returns \<open>s\<close>.
\<close>

theorem vss_share_verifies_and_reconstructs:
  assumes valid: "pedersen_New (Some p) (Some q) (Some g) (Some h) = Inr ped"
    and prime: "is_prime q"
    and secret: "0 \<le> s" "s < q" and blinding: "0 \<le> r"
    and coeffs: "\<forall>a\<in>set as. 0 \<le> a" "\<forall>b\<in>set bs. 0 \<le> b" "length bs = length as"
    and n: "int n \<le> q"
  shows "length (vss_Share ped s r as bs n) = n \<and>
         (\<forall>vs\<in>set (vss_Share ped s r as bs n). vss_Verify ped vs = Inr True) \<and>
         (\<forall>sel. distinct sel \<and> set sel \<subseteq> set (map vs_share (vss_Share ped s r as bs n)) \<and>
                Suc (length as) \<le> length sel \<longrightarrow> Join q sel = Inr s)"
proof (intro conjI ballI allI impI)
  note V = pedersen_New_valid [OF valid]
  have q0: "0 \<le> ped_q ped" using prime V(2) by (simp add: is_prime_def)
  show "length (vss_Share ped s r as bs n) = n" by (simp add: vss_Share_def)
  { fix vs assume vs: "vs \<in> set (vss_Share ped s r as bs n)"
    have fs: "\<forall>c\<in>set (s # as). 0 \<le> c" using secret(1) coeffs(1) by simp
    have gs: "\<forall>c\<in>set (r # bs). 0 \<le> c" using blinding coeffs(2) by simp
    show "vss_Verify ped vs = Inr True"
      using vss_verify_ok [OF _ _ q0 fs gs coeffs(3) [symmetric] vs] V by simp }
  fix sel
  assume a: "distinct sel \<and> set sel \<subseteq> set (map vs_share (vss_Share ped s r as bs n)) \<and>
                Suc (length as) \<le> length sel"
  then have sub: "set sel \<subseteq> set (shamir_Share q s as n)"
    by (simp add: inner_shares V(2))
  from a have "Join q sel = Inr (s mod q)"
    by (intro shamir_join [OF prime _ sub _ n]) simp_all
  with secret show "Join q sel = Inr s" by simp
qed

lemma ex_ped_valid: "pedersen_New (Some 503) (Some 251) (Some 351) (Some 8) = Inr ex_ped"
  by code_simp

lemma prime_251: "is_prime 251"
  by code_simp

lemma ex_sharing_inner:
  "map vs_share ex_sharing
     = [share_new 1 220, share_new 2 70, share_new 3 69, share_new 4 217, share_new 5 12]"
  by code_simp

lemma all_verified:
  assumes "\<forall>vs\<in>set xs. f vs = (Inr True :: vss_panic + bool)"
  shows "map f xs = replicate (length xs) (Inr True)"
  using assms by (induction xs) simp_all

theorem vss_share_verifies_and_reconstructs_witness:
  "pedersen_New (Some 503) (Some 251) (Some 351) (Some 8) = Inr ex_ped \<and>
   length ex_sharing = 5 \<and>
   map (vss_Verify ex_ped) ex_sharing = [Inr True, Inr True, Inr True, Inr True, Inr True] \<and>
   Join 251 [share_new 5 12, share_new 1 220, share_new 3 69] = Inr 17"
proof -
  have c: "\<forall>a\<in>set [3, 200 :: int]. 0 \<le> a" "\<forall>b\<in>set [7, 9 :: int]. 0 \<le> b"
    "length [7, 9 :: int] = length [3, 200 :: int]"
    by simp_all
  have "(0::int) \<le> 17" "(17::int) < 251" "(0::int) \<le> 5" "int 5 \<le> 251" by simp_all
  note T = vss_share_verifies_and_reconstructs [OF ex_ped_valid prime_251 this(1,2,3) c this(4)]
  have sel: "distinct [share_new 5 12, share_new 1 220, share_new 3 69] \<and>
      set [share_new 5 12, share_new 1 220, share_new 3 69]
        \<subseteq> set (map vs_share (vss_Share ex_ped 17 5 [3, 200] [7, 9] 5)) \<and>
      Suc (length [3, 200 :: int]) \<le> length [share_new 5 12, share_new 1 220, share_new 3 69]"
    using ex_sharing_inner by (simp add: ex_sharing_def share_new_def)
  from T sel have j: "Join 251 [share_new 5 12, share_new 1 220, share_new 3 69] = Inr 17"
    by blast
  from T have l: "length ex_sharing = 5" unfolding ex_sharing_def by blast
  from T have "\<forall>vs\<in>set ex_sharing. vss_Verify ex_ped vs = Inr True"
    unfolding ex_sharing_def by blast
  from all_verified [OF this] l
  have v: "map (vss_Verify ex_ped) ex_sharing = [Inr True, Inr True, Inr True, Inr True, Inr True]"
    by (simp add: numeral_eq_Suc)
  from ex_ped_valid l v j show ?thesis by blast
qed

text \<open>
  Claim C3 as stated fails for \<open>n > q\<close>: with \<open>q = 3\<close>, \<open>n = 4\<close>, \<open>k = 2\<close> the shares
  with index 1 and 4 are the same point of the field, so \<^verbatim>\<open>Join\<close> of these two fails;
  the sharings of the secrets 1 and 0 shown agree on both, so no reconstruction from them
  can return the secret.
\<close>

theorem vss_reconstruction_needs_distinct_residues:
  "is_prime 3 \<and>
   pedersen_New (Some 7) (Some 3) (Some 2) (Some 4) = Inr ex_small \<and>
   map vs_share (vss_Share ex_small 1 0 [1] [0] 4)
     = [share_new 1 2, share_new 2 0, share_new 3 1, share_new 4 2] \<and>
   map (vss_Verify ex_small) (vss_Share ex_small 1 0 [1] [0] 4)
     = [Inr True, Inr True, Inr True, Inr True] \<and>
   Join 3 [share_new 1 2, share_new 4 2] = Inl ErrDivisionByZero \<and>
   map vs_share (vss_Share ex_small 0 0 [2] [0] 4)
     = [share_new 1 2, share_new 2 1, share_new 3 0, share_new 4 2]"
  by code_simp

lemma add_coeffs_nonneg:
  assumes "\<forall>c\<in>set fs. 0 \<le> c" "\<forall>c\<in>set gs. 0 \<le> c"
  shows "\<forall>c\<in>set (add_coeffs fs gs). (0::int) \<le> c"
proof
  fix c assume "c \<in> set (add_coeffs fs gs)"
  then obtain x y where xy: "(x, y) \<in> set (zip fs gs)" and c: "c = x + y"
    by (auto simp: add_coeffs_def)
  from xy have "x \<in> set fs" "y \<in> set gs"
    by (auto dest: set_zip_leftD set_zip_rightD)
  with assms c show "0 \<le> c" by simp
qed

text \<open>
  Claim C8, as amended. For a scheme that \<^verbatim>\<open>New\<close> accepts, with \<open>q\<close> prime, two sharings
  \<open>A\<close> of \<open>a\<close> and \<open>B\<close> of \<open>b\<close> with the same \<open>k\<close> and the same \<open>n \<le> q\<close>: every
  componentwise sum \<open>A[i] + B[i]\<close> passes \<^verbatim>\<open>Verify\<close>, and \<^verbatim>\<open>shamir.Join\<close> of any
  selection without repetition of at least \<open>k\<close> of the summed inner shares returns
  \<open>a + b mod q\<close>.
\<close>

theorem vs_add_verifies_and_reconstructs:
  assumes valid: "pedersen_New (Some p) (Some q) (Some g) (Some h) = Inr ped"
    and prime: "is_prime q"
    and A: "0 \<le> a" "0 \<le> ra" "\<forall>c\<in>set as. 0 \<le> c" "\<forall>c\<in>set bs. 0 \<le> c" "length bs = length as"
    and B: "0 \<le> b" "0 \<le> rb" "\<forall>c\<in>set as'. 0 \<le> c" "\<forall>c\<in>set bs'. 0 \<le> c"
      "length as' = length as" "length bs' = length as"
    and n: "int n \<le> q"
  shows "length (vs_sums ped (vss_Share ped a ra as bs n) (vss_Share ped b rb as' bs' n)) = n \<and>
         (\<forall>vs\<in>set (vs_sums ped (vss_Share ped a ra as bs n) (vss_Share ped b rb as' bs' n)).
            vss_Verify ped vs = Inr True) \<and>
         (\<forall>sel. distinct sel \<and>
                set sel \<subseteq> set (map vs_share
                  (vs_sums ped (vss_Share ped a ra as bs n) (vss_Share ped b rb as' bs' n))) \<and>
                Suc (length as) \<le> length sel \<longrightarrow> Join q sel = Inr ((a + b) mod q))"
proof -
  note V = pedersen_New_valid [OF valid]
  have q0: "0 \<le> ped_q ped" using prime V(2) by (simp add: is_prime_def)
  let ?fs = "add_coeffs as as'" and ?gs = "add_coeffs bs bs'"
  have e: "vs_sums ped (vss_Share ped a ra as bs n) (vss_Share ped b rb as' bs' n)
      = vss_Share ped (a + b) (ra + rb) ?fs ?gs n"
    using A B by (intro vs_sums_is_sharing) simp_all
  have nn: "\<forall>c\<in>set ((a + b) # ?fs). 0 \<le> c" "\<forall>c\<in>set ((ra + rb) # ?gs). 0 \<le> c"
    using A B add_coeffs_nonneg [of as as'] add_coeffs_nonneg [of bs bs'] by simp_all
  have len: "length ?fs = length ?gs" "length ?fs = length as"
    using A B by (simp_all add: add_coeffs_def)
  have 1: "length (vss_Share ped (a + b) (ra + rb) ?fs ?gs n) = n" by (simp add: vss_Share_def)
  have 2: "\<forall>vs\<in>set (vss_Share ped (a + b) (ra + rb) ?fs ?gs n). vss_Verify ped vs = Inr True"
    using vss_verify_ok [OF _ _ q0 nn len(1)] V by simp
  have 3: "\<forall>sel. distinct sel \<and>
        set sel \<subseteq> set (map vs_share (vss_Share ped (a + b) (ra + rb) ?fs ?gs n)) \<and>
        Suc (length as) \<le> length sel \<longrightarrow> Join q sel = Inr ((a + b) mod q)"
  proof (intro allI impI)
    fix sel
    assume s: "distinct sel \<and>
        set sel \<subseteq> set (map vs_share (vss_Share ped (a + b) (ra + rb) ?fs ?gs n)) \<and>
        Suc (length as) \<le> length sel"
    then have sub: "set sel \<subseteq> set (shamir_Share q (a + b) ?fs n)"
      by (simp add: inner_shares V(2))
    from s len(2) show "Join q sel = Inr ((a + b) mod q)"
      by (intro shamir_join [OF prime _ sub _ n]) simp_all
  qed
  from 1 2 3 show ?thesis unfolding e by blast
qed

lemma ex_sums_inner:
  "map vs_share (vs_sums ex_ped ex_sharing ex_sharing2)
     = [share_new 1 8, share_new 2 199, share_new 3 77, share_new 4 144, share_new 5 149]"
  by code_simp

theorem vs_add_verifies_and_reconstructs_witness:
  "pedersen_New (Some 503) (Some 251) (Some 351) (Some 8) = Inr ex_ped \<and>
   length (vs_sums ex_ped ex_sharing ex_sharing2) = 5 \<and>
   map (vss_Verify ex_ped) (vs_sums ex_ped ex_sharing ex_sharing2)
     = [Inr True, Inr True, Inr True, Inr True, Inr True] \<and>
   Join 251 [share_new 2 199, share_new 4 144, share_new 5 149] = Inr 6"
proof -
  have A: "(0::int) \<le> 17" "(0::int) \<le> 5" "\<forall>c\<in>set [3, 200 :: int]. 0 \<le> c"
    "\<forall>c\<in>set [7, 9 :: int]. 0 \<le> c" "length [7, 9 :: int] = length [3, 200 :: int]"
    by simp_all
  have B: "(0::int) \<le> 240" "(0::int) \<le> 6" "\<forall>c\<in>set [30, 20 :: int]. 0 \<le> c"
    "\<forall>c\<in>set [70, 90 :: int]. 0 \<le> c" "length [30, 20 :: int] = length [3, 200 :: int]"
    "length [70, 90 :: int] = length [3, 200 :: int]"
    by simp_all
  have n: "int 5 \<le> 251" by simp
  note T = vs_add_verifies_and_reconstructs [OF ex_ped_valid prime_251 A B n]
  have sel: "distinct [share_new 2 199, share_new 4 144, share_new 5 149] \<and>
      set [share_new 2 199, share_new 4 144, share_new 5 149]
        \<subseteq> set (map vs_share (vs_sums ex_ped (vss_Share ex_ped 17 5 [3, 200] [7, 9] 5)
                                    (vss_Share ex_ped 240 6 [30, 20] [70, 90] 5))) \<and>
      Suc (length [3, 200 :: int]) \<le> length [share_new 2 199, share_new 4 144, share_new 5 149]"
    using ex_sums_inner by (simp add: ex_sharing_def ex_sharing2_def share_new_def)
  from T sel have "Join 251 [share_new 2 199, share_new 4 144, share_new 5 149]
      = Inr ((17 + 240) mod 251)"
    by blast
  then have j: "Join 251 [share_new 2 199, share_new 4 144, share_new 5 149] = Inr 6" by simp
  from T have l: "length (vs_sums ex_ped ex_sharing ex_sharing2) = 5"
    unfolding ex_sharing_def ex_sharing2_def by blast
  from T have "\<forall>vs\<in>set (vs_sums ex_ped ex_sharing ex_sharing2). vss_Verify ex_ped vs = Inr True"
    unfolding ex_sharing_def ex_sharing2_def by blast
  from all_verified [OF this] l
  have v: "map (vss_Verify ex_ped) (vs_sums ex_ped ex_sharing ex_sharing2)
      = [Inr True, Inr True, Inr True, Inr True, Inr True]"
    by (simp add: numeral_eq_Suc)
  from ex_ped_valid l v j show ?thesis by blast
qed

text \<open>
  Claim C8 as stated fails for sharings with \<open>n > q\<close>: with \<open>q = 3\<close>, \<open>n = 4\<close>,
  \<open>k = 2\<close> the sums verify, but the summed shares with index 1 and 4 are the same point
  of the field and \<^verbatim>\<open>Join\<close> of the two fails.
\<close>

theorem vs_add_reconstruction_needs_distinct_residues:
  "is_prime 3 \<and>
   pedersen_New (Some 7) (Some 3) (Some 2) (Some 4) = Inr ex_small \<and>
   map vs_share (vs_sums ex_small (vss_Share ex_small 1 0 [1] [0] 4) (vss_Share ex_small 1 0 [1] [0] 4))
     = [share_new 1 1, share_new 2 0, share_new 3 2, share_new 4 1] \<and>
   map (vss_Verify ex_small)
       (vs_sums ex_small (vss_Share ex_small 1 0 [1] [0] 4) (vss_Share ex_small 1 0 [1] [0] 4))
     = [Inr True, Inr True, Inr True, Inr True] \<and>
   Join 3 [share_new 1 1, share_new 4 1] = Inl ErrDivisionByZero \<and>
   Join 3 [share_new 1 1, share_new 4 1] \<noteq> Inr ((1 + 1) mod 3)"
  by code_simp

end
